theory Spec2Isabelle
  imports Main
begin

section \<open>Values, formatting and the external packages\<close>

text \<open>
  The values a test passes to the harness, either as operands of a logging call or as
  the operand of \<^verbatim>\<open>panic\<close>. The two markers are the empty structs
  \<^verbatim>\<open>testFailed{}\<close> and \<^verbatim>\<open>testSkipped{}\<close> of the package; the others are a string,
  an \<^verbatim>\<open>error\<close> (given by the text of its \<^verbatim>\<open>Error()\<close> method), an \<^verbatim>\<open>int\<close> and a
  \<^verbatim>\<open>[]byte\<close>.
\<close>

datatype go_value =
    testFailed
  | testSkipped
  | GoString string
  | GoError string
  | GoInt int
  | GoBytes string

text \<open>Decimal numerals, as \<^verbatim>\<open>fmt\<close> prints integers.\<close>

definition digit :: "nat \<Rightarrow> char" where
  "digit n = ''0123456789'' ! n"

function show_nat :: "nat \<Rightarrow> string" where
  "show_nat n = (if n < 10 then [digit n] else show_nat (n div 10) @ [digit (n mod 10)])"
  by pat_completeness auto
termination
  by (relation "measure (\<lambda>n. n)") auto

declare show_nat.simps [simp del]

definition show_int :: "int \<Rightarrow> string" where
  "show_int i = (if i < 0 then CHR ''-'' # show_nat (nat (- i)) else show_nat (nat i))"

fun join :: "string \<Rightarrow> string list \<Rightarrow> string" where
  "join sep [] = []"
| "join sep [x] = x"
| "join sep (x # y # ys) = x @ sep @ join sep (y # ys)"

text \<open>
  The text the verb \<^verbatim>\<open>%v\<close> (and so \<^verbatim>\<open>Println\<close>) prints for a value: an empty struct
  is \<^verbatim>\<open>{}\<close>, an error is its \<^verbatim>\<open>Error()\<close> text, a byte slice is the bracketed list
  of its bytes in decimal.
\<close>

fun fmt_v :: "go_value \<Rightarrow> string" where
  "fmt_v testFailed = ''{}''"
| "fmt_v testSkipped = ''{}''"
| "fmt_v (GoString s) = s"
| "fmt_v (GoError s) = s"
| "fmt_v (GoInt i) = show_int i"
| "fmt_v (GoBytes bs) = ''['' @ join '' '' (map (\<lambda>b. show_nat (of_char b)) bs) @ '']''"

text \<open>
  \<^verbatim>\<open>fmt.Fprintln\<close>: the operands in their default format, always separated by a
  space, and a newline appended.
\<close>

definition Sprintln :: "go_value list \<Rightarrow> string" where
  "Sprintln args = join '' '' (map fmt_v args) @ ''\<newline>''"

text \<open>
  What lies outside the repository and cannot be computed from it: the full
  \<^verbatim>\<open>fmt.Sprintf\<close> and the bytes \<^verbatim>\<open>debug.Stack()\<close> returns. Both are parameters of
  the model. The stack trace is indexed by the subtest whose boundary asks for it, so
  that every call may return a trace of its own.
\<close>

record extern =
  fmt_Sprintf :: "string \<Rightarrow> go_value list \<Rightarrow> string"
  debug_Stack :: "nat \<Rightarrow> string"

text \<open>
  The part of \<^verbatim>\<open>Sprintf\<close> that is computed: literal text, \<^verbatim>\<open>%%\<close>, the verbs
  \<^verbatim>\<open>%v\<close> (any operand), \<^verbatim>\<open>%s\<close> (a string or an error) and \<^verbatim>\<open>%d\<close> (an int), and
  the two annotations \<^verbatim>\<open>fmt\<close> writes when verbs and operands do not match in number:
  \<^verbatim>\<open>%!c(MISSING)\<close> for a verb \<^verbatim>\<open>c\<close> that finds no operand left, and
  \<^verbatim>\<open>%!(EXTRA type=value, ...)\<close> at the end for operands that no verb used.
  \<open>doPrintf\<close> answers \<open>None\<close> on everything else (flags, width, precision, argument
  indexes, other verbs, an operand a verb does not accept, a surplus operand whose type
  name is not known), and \<open>Sprintf\<close> then defers to the parameter.
\<close>

fun render_verb :: "char \<Rightarrow> go_value \<Rightarrow> string option" where
  "render_verb c a =
     (if c = CHR ''v'' then Some (fmt_v a)
      else if c = CHR ''s'' then
        (case a of GoString s \<Rightarrow> Some s | GoError s \<Rightarrow> Some s | _ \<Rightarrow> None)
      else if c = CHR ''d'' then
        (case a of GoInt i \<Rightarrow> Some (show_int i) | _ \<Rightarrow> None)
      else None)"

text \<open>
  A character that, right after \<^verbatim>\<open>%\<close>, is read as the verb: not a flag, a digit,
  \<^verbatim>\<open>*\<close>, \<^verbatim>\<open>.\<close> or \<^verbatim>\<open>[\<close>, and a one-byte rune.
\<close>

definition plain_verb :: "char \<Rightarrow> bool" where
  "plain_verb v \<longleftrightarrow> v \<notin> set ''#0+- 123456789*.['' \<and> (of_char v :: nat) < 128"

text \<open>\<^verbatim>\<open>reflect.TypeOf(arg).String()\<close>; the dynamic type of an error is not known.\<close>

fun type_name :: "go_value \<Rightarrow> string option" where
  "type_name testFailed = Some ''runt.testFailed''"
| "type_name testSkipped = Some ''runt.testSkipped''"
| "type_name (GoString s) = Some ''string''"
| "type_name (GoError s) = None"
| "type_name (GoInt i) = Some ''int''"
| "type_name (GoBytes bs) = Some ''[]uint8''"

definition extra :: "go_value list \<Rightarrow> string option" where
  "extra args =
     map_option (\<lambda>xs. ''%!(EXTRA '' @ join '', '' xs @ '')'')
       (those (map (\<lambda>a. map_option (\<lambda>t. t @ ''='' @ fmt_v a) (type_name a)) args))"

fun doPrintf :: "string \<Rightarrow> go_value list \<Rightarrow> string option" where
  "doPrintf [] args = (if args = [] then Some [] else extra args)"
| "doPrintf [c] args = (if c = CHR ''%'' then None else map_option ((#) c) (doPrintf [] args))"
| "doPrintf (c # v # fs) args =
     (if c \<noteq> CHR ''%'' then map_option ((#) c) (doPrintf (v # fs) args)
      else if v = CHR ''%'' then map_option ((#) CHR ''%'') (doPrintf fs args)
      else (case args of
              [] \<Rightarrow>
                (if plain_verb v
                 then map_option (\<lambda>s. ''%!'' @ [v] @ ''(MISSING)'' @ s) (doPrintf fs [])
                 else None)
            | a # as \<Rightarrow>
                (case render_verb v a of
                   None \<Rightarrow> None
                 | Some s \<Rightarrow> map_option ((@) s) (doPrintf fs as))))"

definition Sprintf :: "extern \<Rightarrow> string \<Rightarrow> go_value list \<Rightarrow> string" where
  "Sprintf X format args =
     (case doPrintf format args of Some s \<Rightarrow> s | None \<Rightarrow> fmt_Sprintf X format args)"


text \<open>\<^verbatim>\<open>strings.Contains\<close>, as the tests of the repository use it on error messages.\<close>

fun Contains :: "string \<Rightarrow> string \<Rightarrow> bool" where
  "Contains [] sub = (sub = [])"
| "Contains (c # s) sub = (take (length sub) (c # s) = sub \<or> Contains s sub)"

section \<open>The test context \<^verbatim>\<open>T\<close> and the store\<close>

text \<open>
  \<^verbatim>\<open>type T struct { testing.TB; name string; ctx context.Context; parent *T;
  logs *strings.Builder; failed bool; skipped bool }\<close>.
  The embedded \<^verbatim>\<open>testing.TB\<close> is always nil and never used. The context handle is
  opaque (a type parameter). Every \<^verbatim>\<open>T\<close> made by \<^verbatim>\<open>New\<close> owns a fresh builder, so
  \<open>logs\<close> is the text written so far.

  Contexts are shared and mutated through pointers (\<open>parent\<close> aliases the enclosing
  context), so they live in a store: a list of objects, a pointer being an index. An
  index outside the store stands for the nil pointer: dereferencing it panics.
\<close>

type_synonym addr = nat

record 'c T =
  name :: string
  ctx :: 'c
  parent :: "addr option"
  logs :: string
  failed :: bool
  skipped :: bool

type_synonym 'c heap = "'c T list"

text \<open>
  A computation takes the store and either never returns (\<open>None\<close>), or ends in a new
  store, with a panic carrying a value (\<open>Inl\<close>) or with a normal return (\<open>Inr\<close>).
\<close>

type_synonym ('c, 'a) M = "'c heap \<Rightarrow> ((go_value + 'a) \<times> 'c heap) option"

definition return :: "'a \<Rightarrow> ('c, 'a) M" where
  "return x h = Some (Inr x, h)"

definition panic :: "go_value \<Rightarrow> ('c, 'a) M" where
  "panic v h = Some (Inl v, h)"

text \<open>Sequencing of statements: a panic in the first skips the rest of the frame.\<close>

definition bind :: "('c, 'a) M \<Rightarrow> ('a \<Rightarrow> ('c, 'b) M) \<Rightarrow> ('c, 'b) M" where
  "bind m f h =
     (case m h of
        None \<Rightarrow> None
      | Some (Inl v, h') \<Rightarrow> Some (Inl v, h')
      | Some (Inr x, h') \<Rightarrow> f x h')"

text \<open>
  \<^verbatim>\<open>defer func() { x := recover(); ... }()\<close> around a body: the deferred function runs
  when the body returns (then \<^verbatim>\<open>recover()\<close> is nil, and the body's result stands) and
  when it panics (then \<^verbatim>\<open>recover()\<close> is the value, the panic stops there, and the
  enclosing function returns the zero value of its unnamed result). A panic of the
  deferred function itself goes on to the caller.
\<close>

definition defer_recover ::
  "('c, 'a) M \<Rightarrow> (go_value option \<Rightarrow> ('c, unit) M) \<Rightarrow> 'a \<Rightarrow> ('c, 'a) M" where
  "defer_recover body deferred zero h =
     (case body h of
        None \<Rightarrow> None
      | Some (Inr r, h') \<Rightarrow> bind (deferred None) (\<lambda>_. return r) h'
      | Some (Inl x, h') \<Rightarrow> bind (deferred (Some x)) (\<lambda>_. return zero) h')"

definition nil_dereference :: go_value where
  "nil_dereference = GoError ''runtime error: invalid memory address or nil pointer dereference''"

text \<open>Reading and writing a field through a pointer.\<close>

definition deref :: "addr \<Rightarrow> ('c T \<Rightarrow> 'a) \<Rightarrow> ('c, 'a) M" where
  "deref e f h = (if e < length h then Some (Inr (f (h ! e)), h) else Some (Inl nil_dereference, h))"

definition assign :: "addr \<Rightarrow> ('c T \<Rightarrow> 'c T) \<Rightarrow> ('c, unit) M" where
  "assign e g h =
     (if e < length h then Some (Inr (), h[e := g (h ! e)]) else Some (Inl nil_dereference, h))"

section \<open>The methods of \<^verbatim>\<open>T\<close>\<close>

definition New :: "'c \<Rightarrow> string \<Rightarrow> ('c, addr) M" where
  "New c n h =
     Some (Inr (length h),
           h @ [\<lparr>name = n, ctx = c, parent = None, logs = [], failed = False, skipped = False\<rparr>])"

definition Name :: "addr \<Rightarrow> ('c, string) M" where
  "Name e = deref e name"

definition Helper :: "addr \<Rightarrow> ('c, unit) M" where
  "Helper e = return ()"

definition Cleanup :: "addr \<Rightarrow> ('c, unit) M" where
  "Cleanup e = return ()"

definition Logs :: "addr \<Rightarrow> ('c, string) M" where
  "Logs e = deref e logs"

definition Context :: "addr \<Rightarrow> ('c, 'c) M" where
  "Context e = deref e ctx"

definition Log :: "addr \<Rightarrow> go_value list \<Rightarrow> ('c, unit) M" where
  "Log e args = assign e (\<lambda>t. t\<lparr>logs := logs t @ Sprintln args\<rparr>)"

definition Logf :: "extern \<Rightarrow> addr \<Rightarrow> string \<Rightarrow> go_value list \<Rightarrow> ('c, unit) M" where
  "Logf X e format args =
     assign e (\<lambda>t. t\<lparr>logs := logs t @ Sprintf X (format @ ''\<newline>'') args\<rparr>)"

text \<open>
  \<^verbatim>\<open>func (e *T) Fail() { if e.parent != nil { e.parent.Fail() }; e.failed = true }\<close>.
  The recursion follows the parent pointers of the store; on a store whose parent
  pointers form a cycle it never returns.
\<close>

partial_function (option) Fail :: "addr \<Rightarrow> 'c heap \<Rightarrow> ((go_value + unit) \<times> 'c heap) option" where
  "Fail e h =
     (if e < length h then
        (case parent (h ! e) of
           None \<Rightarrow> assign e (\<lambda>t. t\<lparr>failed := True\<rparr>) h
         | Some p \<Rightarrow>
             Option.bind (Fail p h)
               (\<lambda>(r, h'). case r of
                   Inl v \<Rightarrow> Some (Inl v, h')
                 | Inr _ \<Rightarrow> assign e (\<lambda>t. t\<lparr>failed := True\<rparr>) h'))
      else Some (Inl nil_dereference, h))"

definition Error :: "addr \<Rightarrow> go_value list \<Rightarrow> ('c, unit) M" where
  "Error e args = bind (Log e args) (\<lambda>_. Fail e)"

definition Errorf :: "extern \<Rightarrow> addr \<Rightarrow> string \<Rightarrow> go_value list \<Rightarrow> ('c, unit) M" where
  "Errorf X e format args = bind (Logf X e format args) (\<lambda>_. Fail e)"

definition FailNow :: "addr \<Rightarrow> ('c, unit) M" where
  "FailNow e = bind (assign e (\<lambda>t. t\<lparr>failed := True\<rparr>)) (\<lambda>_. panic testFailed)"

definition Fatal :: "addr \<Rightarrow> go_value list \<Rightarrow> ('c, unit) M" where
  "Fatal e args = bind (Log e args) (\<lambda>_. FailNow e)"

definition Fatalf :: "extern \<Rightarrow> addr \<Rightarrow> string \<Rightarrow> go_value list \<Rightarrow> ('c, unit) M" where
  "Fatalf X e format args = bind (Logf X e format args) (\<lambda>_. FailNow e)"

definition Failed :: "addr \<Rightarrow> ('c, bool) M" where
  "Failed e = deref e failed"

definition SkipNow :: "addr \<Rightarrow> ('c, unit) M" where
  "SkipNow e = bind (assign e (\<lambda>t. t\<lparr>skipped := True\<rparr>)) (\<lambda>_. panic testSkipped)"

definition Skip :: "addr \<Rightarrow> go_value list \<Rightarrow> ('c, unit) M" where
  "Skip e args = bind (Log e args) (\<lambda>_. SkipNow e)"

definition Skipf :: "extern \<Rightarrow> addr \<Rightarrow> string \<Rightarrow> go_value list \<Rightarrow> ('c, unit) M" where
  "Skipf X e format args = bind (Logf X e format args) (\<lambda>_. SkipNow e)"

definition Skipped :: "addr \<Rightarrow> ('c, bool) M" where
  "Skipped e = deref e skipped"

section \<open>Subtests and the top-level entry point\<close>

text \<open>
  The deferred function of \<^verbatim>\<open>T.Run\<close>:
  \<^verbatim>\<open>x := recover(); switch x { case nil: case testSkipped{}, testFailed{}:
  default: sub.Errorf("PANIC: %v", x); sub.Error(debug.Stack()) }\<close>.
\<close>

fun T_Run_deferred :: "extern \<Rightarrow> addr \<Rightarrow> go_value option \<Rightarrow> ('c, unit) M" where
  "T_Run_deferred X sub None = return ()"
| "T_Run_deferred X sub (Some testSkipped) = return ()"
| "T_Run_deferred X sub (Some testFailed) = return ()"
| "T_Run_deferred X sub (Some x) =
     bind (Errorf X sub ''PANIC: %v'' [x]) (\<lambda>_. Error sub [GoBytes (debug_Stack X sub)])"

text \<open>
  \<^verbatim>\<open>func (e *T) Run(name string, cb func(*T)) bool\<close>: the child is made from
  the receiver's context handle, linked to the receiver, and the callback runs under the
  deferred function. \<^verbatim>\<open>return !sub.Failed()\<close> is reached only when the callback
  returns; after a recovered panic the result is the zero value \<^verbatim>\<open>false\<close>.
\<close>

definition T_Run :: "extern \<Rightarrow> addr \<Rightarrow> string \<Rightarrow> (addr \<Rightarrow> ('c, unit) M) \<Rightarrow> ('c, bool) M" where
  "T_Run X e nm cb =
     bind (deref e ctx) (\<lambda>c.
     bind (New c nm) (\<lambda>sub.
     bind (assign sub (\<lambda>t. t\<lparr>parent := Some e\<rparr>)) (\<lambda>_.
     defer_recover
       (bind (cb sub) (\<lambda>_. bind (Failed sub) (\<lambda>f. return (\<not> f))))
       (T_Run_deferred X sub)
       False)))"

text \<open>The \<^verbatim>\<open>error\<close> that the entry point returns: nil, or one made by \<^verbatim>\<open>fmt.Errorf\<close>.\<close>

datatype error = nil | errorString string

text \<open>
  The deferred function of the entry point:
  \<^verbatim>\<open>x := recover(); switch x { case nil: case testSkipped{}, testFailed{}:
  default: t.Errorf("PANIC: %v", x) }\<close>.
\<close>

fun Run_deferred :: "extern \<Rightarrow> addr \<Rightarrow> go_value option \<Rightarrow> ('c, unit) M" where
  "Run_deferred X t None = return ()"
| "Run_deferred X t (Some testSkipped) = return ()"
| "Run_deferred X t (Some testFailed) = return ()"
| "Run_deferred X t (Some x) = Errorf X t ''PANIC: %v'' [x]"

text \<open>
  \<^verbatim>\<open>func Run(ctx context.Context, cb func(testing.TB)) error\<close>. The callback runs in
  a function literal of its own that carries the deferred function; the test of
  \<^verbatim>\<open>t.Failed()\<close> comes after that literal has returned.
\<close>

definition Run :: "extern \<Rightarrow> 'c \<Rightarrow> (addr \<Rightarrow> ('c, unit) M) \<Rightarrow> ('c, error) M" where
  "Run X c cb =
     bind (New c ''test'') (\<lambda>t.
     bind (defer_recover (cb t) (Run_deferred X t) ()) (\<lambda>_.
     bind (Failed t) (\<lambda>f.
       if f then
         bind (Logs t) (\<lambda>l.
           return (errorString (Sprintf X ''test failed:\<newline>%s'' [GoString l])))
       else return nil)))"

section \<open>Test code\<close>

text \<open>
  Test code that drives the harness: a sequence of calls of the methods, each on a
  context it can name. \<open>Var k\<close> is the parameter of the \<open>k\<close>-th enclosing callback
  (\<open>Var 0\<close> the innermost); \<open>Ptr a\<close> is a pointer held from elsewhere, such as the
  context of a subtest that has ended. A name that is not in scope is a nil pointer.
\<close>

datatype target = Var nat | Ptr addr

fun resolve :: "addr list \<Rightarrow> target \<Rightarrow> addr option" where
  "resolve env (Var k) = (if k < length env then Some (env ! k) else None)"
| "resolve env (Ptr a) = Some a"

definition on :: "addr list \<Rightarrow> target \<Rightarrow> (addr \<Rightarrow> ('c, 'a) M) \<Rightarrow> ('c, 'a) M" where
  "on env tg f = (case resolve env tg of None \<Rightarrow> panic nil_dereference | Some e \<Rightarrow> f e)"

text \<open>
  The statements: the calls of the reporting methods and of the observers (whose
  results are dropped, or branched on), \<^verbatim>\<open>panic(v)\<close>,
  \<^verbatim>\<open>if e.Run(name, func(sub *T) { body }) { ... } else { ... }\<close>, and a block of
  statements under a deferred \<^verbatim>\<open>recover()\<close> whose handler runs when the block
  panicked.
\<close>

datatype cmd =
    LogC target "go_value list"
  | LogfC target string "go_value list"
  | ErrorC target "go_value list"
  | ErrorfC target string "go_value list"
  | FatalC target "go_value list"
  | FatalfC target string "go_value list"
  | FailC target
  | FailNowC target
  | SkipC target "go_value list"
  | SkipfC target string "go_value list"
  | SkipNowC target
  | HelperC target
  | CleanupC target
  | NameC target
  | LogsC target
  | ContextC target
  | PanicC go_value
  | IfFailedC target "cmd list" "cmd list"
  | IfSkippedC target "cmd list" "cmd list"
  | RunC target string "cmd list" "cmd list" "cmd list"
  | RecoverC "cmd list" "cmd list"

definition discard :: "('c, 'a) M \<Rightarrow> ('c, unit) M" where
  "discard m = bind m (\<lambda>_. return ())"

fun exec :: "extern \<Rightarrow> addr list \<Rightarrow> cmd \<Rightarrow> ('c, unit) M"
  and exec_list :: "extern \<Rightarrow> addr list \<Rightarrow> cmd list \<Rightarrow> ('c, unit) M" where
  "exec X env (LogC tg args) = on env tg (\<lambda>e. Log e args)"
| "exec X env (LogfC tg format args) = on env tg (\<lambda>e. Logf X e format args)"
| "exec X env (ErrorC tg args) = on env tg (\<lambda>e. Error e args)"
| "exec X env (ErrorfC tg format args) = on env tg (\<lambda>e. Errorf X e format args)"
| "exec X env (FatalC tg args) = on env tg (\<lambda>e. Fatal e args)"
| "exec X env (FatalfC tg format args) = on env tg (\<lambda>e. Fatalf X e format args)"
| "exec X env (FailC tg) = on env tg Fail"
| "exec X env (FailNowC tg) = on env tg FailNow"
| "exec X env (SkipC tg args) = on env tg (\<lambda>e. Skip e args)"
| "exec X env (SkipfC tg format args) = on env tg (\<lambda>e. Skipf X e format args)"
| "exec X env (SkipNowC tg) = on env tg SkipNow"
| "exec X env (HelperC tg) = return ()"
| "exec X env (CleanupC tg) = return ()"
| "exec X env (NameC tg) = on env tg (\<lambda>e. discard (Name e))"
| "exec X env (LogsC tg) = on env tg (\<lambda>e. discard (Logs e))"
| "exec X env (ContextC tg) = on env tg (\<lambda>e. discard (Context e))"
| "exec X env (PanicC v) = panic v"
| "exec X env (IfFailedC tg cs ds) =
     bind (on env tg Failed) (\<lambda>b. if b then exec_list X env cs else exec_list X env ds)"
| "exec X env (IfSkippedC tg cs ds) =
     bind (on env tg Skipped) (\<lambda>b. if b then exec_list X env cs else exec_list X env ds)"
| "exec X env (RunC tg nm body cs ds) =
     bind (on env tg (\<lambda>e. T_Run X e nm (\<lambda>sub. exec_list X (sub # env) body)))
       (\<lambda>b. if b then exec_list X env cs else exec_list X env ds)"
| "exec X env (RecoverC body handler) =
     defer_recover (exec_list X env body)
       (\<lambda>x. case x of None \<Rightarrow> return () | Some _ \<Rightarrow> exec_list X env handler) ()"
| "exec_list X env [] = return ()"
| "exec_list X env (c # cs) = bind (exec X env c) (\<lambda>_. exec_list X env cs)"

section \<open>Notions used to state the properties\<close>

text \<open>The objects that \<^verbatim>\<open>Run\<close> and \<^verbatim>\<open>T.Run\<close> allocate before the callback starts.\<close>

definition root :: "'c \<Rightarrow> 'c T" where
  "root c = \<lparr>name = ''test'', ctx = c, parent = None, logs = [], failed = False, skipped = False\<rparr>"

definition child :: "'c heap \<Rightarrow> addr \<Rightarrow> string \<Rightarrow> 'c T" where
  "child h e nm =
     \<lparr>name = nm, ctx = ctx (h ! e), parent = Some e, logs = [], failed = False, skipped = False\<rparr>"

text \<open>
  A store is well formed when every parent pointer points to an older object. The
  stores that \<^verbatim>\<open>New\<close> and \<^verbatim>\<open>T.Run\<close> build are of this kind: the only assignment to
  \<open>parent\<close> links a fresh child to its receiver.
\<close>

definition wf_heap :: "'c heap \<Rightarrow> bool" where
  "wf_heap h =
     list_all (\<lambda>a. case parent (h ! a) of None \<Rightarrow> True | Some p \<Rightarrow> p < a) [0..<length h]"

text \<open>\<open>ancestor_or_self h a e\<close>: \<open>a\<close> is \<open>e\<close> or is reached from \<open>e\<close> along parent pointers.\<close>

inductive ancestor_or_self :: "'c heap \<Rightarrow> addr \<Rightarrow> addr \<Rightarrow> bool" for h where
  self: "ancestor_or_self h e e"
| up: "e < length h \<Longrightarrow> parent (h ! e) = Some p \<Longrightarrow> ancestor_or_self h a p \<Longrightarrow>
       ancestor_or_self h a e"

code_pred ancestor_or_self .

text \<open>The store in which \<open>e\<close> and all its ancestors are marked failed.\<close>

definition marked :: "'c heap \<Rightarrow> addr \<Rightarrow> 'c heap" where
  "marked h e =
     map (\<lambda>a. if ancestor_or_self h a e then (h ! a)\<lparr>failed := True\<rparr> else h ! a) [0..<length h]"

text \<open>
  \<open>extends h h'\<close>: every object of \<open>h\<close> is still there in \<open>h'\<close>, with its name, context
  handle and parent, and with each flag that was set still set.
\<close>

definition extends :: "'c heap \<Rightarrow> 'c heap \<Rightarrow> bool" where
  "extends h h' \<longleftrightarrow>
     length h \<le> length h' \<and>
     (\<forall>a<length h.
        name (h' ! a) = name (h ! a) \<and> ctx (h' ! a) = ctx (h ! a) \<and>
        parent (h' ! a) = parent (h ! a) \<and>
        (failed (h ! a) \<longrightarrow> failed (h' ! a)) \<and> (skipped (h ! a) \<longrightarrow> skipped (h' ! a)))"

definition preserving :: "('c, 'a) M \<Rightarrow> bool" where
  "preserving m \<longleftrightarrow> (\<forall>h r h'. m h = Some (r, h') \<longrightarrow> extends h h')"

definition returning :: "('c, 'a) M \<Rightarrow> bool" where
  "returning m \<longleftrightarrow> (\<forall>h. wf_heap h \<longrightarrow> (\<exists>r h'. m h = Some (r, h') \<and> wf_heap h'))"

text \<open>
  \<open>flags_kept h h'\<close>: every object of \<open>h\<close> is still there in \<open>h'\<close>, and each of its two
  flags that was set in \<open>h\<close> is set in \<open>h'\<close>.
\<close>

definition flags_kept :: "'c heap \<Rightarrow> 'c heap \<Rightarrow> bool" where
  "flags_kept h h' \<longleftrightarrow>
     length h \<le> length h' \<and>
     (\<forall>a<length h. (failed (h ! a) \<longrightarrow> failed (h' ! a)) \<and> (skipped (h ! a) \<longrightarrow> skipped (h' ! a)))"

text \<open>
  The stores that test code can observe while it runs, in the order they occur: the
  store after each statement, at every depth. For a subtest these are the store in
  which its callback starts (the child just made), the stores the callback goes through,
  and the store in which \<^verbatim>\<open>T.Run\<close> hands control back, after its deferred function.
\<close>

definition after :: "('c, 'a) M \<Rightarrow> 'c heap \<Rightarrow> 'c heap list" where
  "after m h = (case m h of None \<Rightarrow> [] | Some (r, h') \<Rightarrow> [h'])"

fun obs :: "extern \<Rightarrow> addr list \<Rightarrow> cmd \<Rightarrow> 'c heap \<Rightarrow> 'c heap list"
  and obs_list :: "extern \<Rightarrow> addr list \<Rightarrow> cmd list \<Rightarrow> 'c heap \<Rightarrow> 'c heap list" where
  "obs X env (IfFailedC tg cs ds) h =
     (case on env tg Failed h of
        None \<Rightarrow> []
      | Some (Inl v, h1) \<Rightarrow> [h1]
      | Some (Inr b, h1) \<Rightarrow> h1 # (if b then obs_list X env cs h1 else obs_list X env ds h1))"
| "obs X env (IfSkippedC tg cs ds) h =
     (case on env tg Skipped h of
        None \<Rightarrow> []
      | Some (Inl v, h1) \<Rightarrow> [h1]
      | Some (Inr b, h1) \<Rightarrow> h1 # (if b then obs_list X env cs h1 else obs_list X env ds h1))"
| "obs X env (RunC tg nm body cs ds) h =
     (case resolve env tg of
        None \<Rightarrow> [h]
      | Some e \<Rightarrow>
          if e < length h then
            (h @ [child h e nm]) #
            obs_list X (length h # env) body (h @ [child h e nm]) @
            (case T_Run X e nm (\<lambda>sub. exec_list X (sub # env) body) h of
               None \<Rightarrow> []
             | Some (Inl v, h1) \<Rightarrow> [h1]
             | Some (Inr b, h1) \<Rightarrow>
                 h1 # (if b then obs_list X env cs h1 else obs_list X env ds h1))
          else [h])"
| "obs X env (RecoverC body handler) h =
     obs_list X env body h @
     (case exec_list X env body h of
        None \<Rightarrow> []
      | Some (Inr u, h1) \<Rightarrow> []
      | Some (Inl v, h1) \<Rightarrow> obs_list X env handler h1) @
     after (exec X env (RecoverC body handler)) h"
| "obs X env c h = after (exec X env c) h"
| "obs_list X env [] h = []"
| "obs_list X env (c # cs) h =
     obs X env c h @
     (case exec X env c h of
        None \<Rightarrow> []
      | Some (Inl v, h1) \<Rightarrow> []
      | Some (Inr u, h1) \<Rightarrow> obs_list X env cs h1)"





text \<open>An instance of the external parameters, for the concrete runs below.\<close>

definition example_extern :: extern where
  "example_extern =
     \<lparr>fmt_Sprintf = (\<lambda>format args. format), debug_Stack = (\<lambda>sub. ''goroutine 1'')\<rparr>"

section \<open>The store and the control operators\<close>

lemma wf_heap_iff: "wf_heap h \<longleftrightarrow> (\<forall>a<length h. \<forall>p. parent (h ! a) = Some p \<longrightarrow> p < a)"
  by (auto simp: wf_heap_def list_all_iff split: option.splits)

lemma extends_refl: "extends h h"
  by (simp add: extends_def)

lemma extends_trans: "extends h h1 \<Longrightarrow> extends h1 h2 \<Longrightarrow> extends h h2"
  by (auto simp: extends_def)

lemma extends_append: "extends h (h @ xs)"
  by (simp add: extends_def nth_append)

lemma extends_update:
  "e < length h \<Longrightarrow> name t = name (h ! e) \<Longrightarrow> ctx t = ctx (h ! e) \<Longrightarrow>
   parent t = parent (h ! e) \<Longrightarrow> (failed (h ! e) \<longrightarrow> failed t) \<Longrightarrow>
   (skipped (h ! e) \<longrightarrow> skipped t) \<Longrightarrow> extends h (h[e := t])"
  by (auto simp: extends_def nth_list_update)

lemma wf_heap_update:
  "wf_heap h \<Longrightarrow> e < length h \<Longrightarrow> parent t = parent (h ! e) \<Longrightarrow> wf_heap (h[e := t])"
  by (auto simp: wf_heap_iff nth_list_update)

lemma wf_heap_root: "wf_heap h \<Longrightarrow> wf_heap (h @ [root c])"
  by (auto simp: wf_heap_iff nth_append root_def less_Suc_eq)

lemma wf_heap_child: "wf_heap h \<Longrightarrow> e < length h \<Longrightarrow> wf_heap (h @ [child h e nm])"
  by (auto simp: wf_heap_iff nth_append child_def less_Suc_eq)

lemma bind_Inr: "m h = Some (Inr x, h') \<Longrightarrow> bind m f h = f x h'"
  by (simp add: bind_def)

lemma bind_New:
  "bind (New c n) f h =
     f (length h)
       (h @ [\<lparr>name = n, ctx = c, parent = None, logs = [], failed = False, skipped = False\<rparr>])"
  by (simp add: bind_def New_def)

lemma preservingD: "preserving m \<Longrightarrow> m h = Some (r, h') \<Longrightarrow> extends h h'"
  by (auto simp: preserving_def)

lemma returningD: "returning m \<Longrightarrow> wf_heap h \<Longrightarrow> \<exists>r h'. m h = Some (r, h') \<and> wf_heap h'"
  by (auto simp: returning_def)

lemma preserving_return: "preserving (return x)"
  by (simp add: preserving_def return_def extends_refl)

lemma preserving_panic: "preserving (panic v)"
  by (simp add: preserving_def panic_def extends_refl)

lemma preserving_bind:
  assumes m: "preserving m" and f: "\<And>x. preserving (f x)"
  shows "preserving (bind m f)"
  unfolding preserving_def
proof (intro allI impI)
  fix h r h'
  assume a: "bind m f h = Some (r, h')"
  then obtain r1 h1 where 1: "m h = Some (r1, h1)"
    by (cases "m h") (auto simp: bind_def)
  have e1: "extends h h1" using m 1 by (rule preservingD)
  show "extends h h'"
  proof (cases r1)
    case (Inl v)
    with a 1 e1 show ?thesis by (simp add: bind_def)
  next
    case (Inr x)
    with a 1 have "f x h1 = Some (r, h')" by (simp add: bind_def)
    with f have "extends h1 h'" by (rule preservingD)
    with e1 show ?thesis by (rule extends_trans)
  qed
qed

lemma preserving_deref: "preserving (deref e f)"
  by (auto simp: preserving_def deref_def extends_refl split: if_splits)

lemma preserving_assign:
  "(\<And>t. name (g t) = name t \<and> ctx (g t) = ctx t \<and> parent (g t) = parent t \<and>
         (failed t \<longrightarrow> failed (g t)) \<and> (skipped t \<longrightarrow> skipped (g t))) \<Longrightarrow>
   preserving (assign e g)"
  by (auto simp: preserving_def assign_def extends_refl extends_update split: if_splits)

lemma preserving_defer_recover:
  assumes b: "preserving body" and d: "\<And>x. preserving (d x)"
  shows "preserving (defer_recover body d z)"
  unfolding preserving_def
proof (intro allI impI)
  fix h r h'
  assume a: "defer_recover body d z h = Some (r, h')"
  then obtain r1 h1 where b1: "body h = Some (r1, h1)"
    by (cases "body h") (auto simp: defer_recover_def)
  have f1: "extends h h1" using b b1 by (rule preservingD)
  have f2: "extends h1 h'"
  proof (cases r1)
    case (Inl x)
    have "preserving (bind (d (Some x)) (\<lambda>_. return z))"
      by (intro preserving_bind d preserving_return)
    moreover from a b1 Inl have "bind (d (Some x)) (\<lambda>_. return z) h1 = Some (r, h')"
      by (simp add: defer_recover_def)
    ultimately show ?thesis by (rule preservingD)
  next
    case (Inr u)
    have "preserving (bind (d None) (\<lambda>_. return u))"
      by (intro preserving_bind d preserving_return)
    moreover from a b1 Inr have "bind (d None) (\<lambda>_. return u) h1 = Some (r, h')"
      by (simp add: defer_recover_def)
    ultimately show ?thesis by (rule preservingD)
  qed
  from f1 f2 show "extends h h'" by (rule extends_trans)
qed

lemma returning_return: "returning (return x)"
  by (simp add: returning_def return_def)

lemma returning_panic: "returning (panic v)"
  by (simp add: returning_def panic_def)

lemma returning_bind:
  assumes m: "returning m" and f: "\<And>x. returning (f x)"
  shows "returning (bind m f)"
  unfolding returning_def
proof (intro allI impI)
  fix h :: "'a heap"
  assume "wf_heap h"
  with m obtain r h1 where 1: "m h = Some (r, h1)" "wf_heap h1"
    by (blast dest: returningD)
  show "\<exists>r h'. bind m f h = Some (r, h') \<and> wf_heap h'"
  proof (cases r)
    case (Inl v)
    with 1 show ?thesis by (simp add: bind_def)
  next
    case (Inr x)
    from returningD[OF f 1(2), of x] 1 Inr show ?thesis by (simp add: bind_def)
  qed
qed

lemma returning_deref: "returning (deref e f)"
  by (simp add: returning_def deref_def)

lemma returning_assign: "(\<And>t. parent (g t) = parent t) \<Longrightarrow> returning (assign e g)"
  by (auto simp: returning_def assign_def wf_heap_update)

lemma returning_defer_recover:
  assumes b: "returning body" and d: "\<And>x. returning (d x)"
  shows "returning (defer_recover body d z)"
  unfolding returning_def
proof (intro allI impI)
  fix h :: "'a heap"
  assume "wf_heap h"
  with b obtain r h1 where 1: "body h = Some (r, h1)" "wf_heap h1"
    by (blast dest: returningD)
  have k: "\<And>x u. returning (bind (d x) (\<lambda>_. return u))"
    by (intro returning_bind d returning_return)
  show "\<exists>r h'. defer_recover body d z h = Some (r, h') \<and> wf_heap h'"
  proof (cases r)
    case (Inl v)
    from returningD[OF k 1(2), of "Some v" z] 1 Inl show ?thesis
      by (simp add: defer_recover_def)
  next
    case (Inr x)
    from returningD[OF k 1(2), of None x] 1 Inr show ?thesis
      by (simp add: defer_recover_def)
  qed
qed

lemma preserving_on: "(\<And>e. preserving (f e)) \<Longrightarrow> preserving (on env tg f)"
  by (simp add: on_def preserving_panic split: option.splits)

lemma returning_on: "(\<And>e. returning (f e)) \<Longrightarrow> returning (on env tg f)"
  by (simp add: on_def returning_panic split: option.splits)

section \<open>Formatting\<close>

lemma Sprintf_PANIC: "Sprintf X ''PANIC: %v\<newline>'' [x] = ''PANIC: '' @ fmt_v x @ ''\<newline>''"
  by (simp add: Sprintf_def)

lemma Sprintf_test_failed:
  "Sprintf X ''test failed:\<newline>%s'' [GoString l] = ''test failed:\<newline>'' @ l"
  by (simp add: Sprintf_def)




section \<open>The methods\<close>

lemma Log_valid:
  "e < length h \<Longrightarrow>
   Log e args h = Some (Inr (), h[e := (h ! e)\<lparr>logs := logs (h ! e) @ Sprintln args\<rparr>])"
  by (simp add: Log_def assign_def)

lemma Logf_valid:
  "e < length h \<Longrightarrow>
   Logf X e format args h =
     Some (Inr (), h[e := (h ! e)\<lparr>logs := logs (h ! e) @ Sprintf X (format @ ''\<newline>'') args\<rparr>])"
  by (simp add: Logf_def assign_def)

lemma FailNow_valid:
  "e < length h \<Longrightarrow> FailNow e h = Some (Inl testFailed, h[e := (h ! e)\<lparr>failed := True\<rparr>])"
  by (simp add: FailNow_def bind_def assign_def panic_def)


subsection \<open>\<^verbatim>\<open>Fail\<close>: the walk up the parent pointers\<close>

lemma Fail_root:
  "e < length h \<Longrightarrow> parent (h ! e) = None \<Longrightarrow>
   Fail e h = Some (Inr (), h[e := (h ! e)\<lparr>failed := True\<rparr>])"
  by (subst Fail.simps) (simp add: assign_def)

lemma Fail_child:
  "e < length h \<Longrightarrow> parent (h ! e) = Some p \<Longrightarrow>
   Fail e h = bind (Fail p) (\<lambda>_. assign e (\<lambda>t. t\<lparr>failed := True\<rparr>)) h"
  by (subst Fail.simps) (auto simp: bind_def split: option.splits sum.splits Option.bind_splits)

lemma Fail_nil: "\<not> e < length h \<Longrightarrow> Fail e h = Some (Inl nil_dereference, h)"
  by (subst Fail.simps) simp

text \<open>Whenever \<^verbatim>\<open>Fail\<close> returns, on any store, it has only set flags.\<close>

lemma Fail_extends:
  assumes "Fail e h = Some y"
  shows "extends h (snd y) \<and> length (snd y) = length h"
  using assms
proof (induction e h y rule: Fail.raw_induct[rotated 1, consumes 1, case_names step])
  case (step F e h y)
  show ?case
  proof (cases "e < length h")
    case False
    with step(2) show ?thesis by (auto simp: extends_refl)
  next
    case True
    show ?thesis
    proof (cases "parent (h ! e)")
      case None
      with True step(2) show ?thesis
        by (auto simp: assign_def extends_update)
    next
      case (Some p)
      with True step(2) obtain r1 h1 where f: "F p h = Some (r1, h1)"
        and rest: "(case r1 of Inl v \<Rightarrow> Some (Inl v, h1)
                    | Inr x \<Rightarrow> assign e (failed_update (\<lambda>_. True)) h1) = Some y"
        by (cases "F p h") auto
      from step(1)[OF f] have k: "extends h h1" "length h1 = length h" by auto
      from rest have "extends h1 (snd y) \<and> length (snd y) = length h1"
        by (cases r1) (auto simp: assign_def extends_refl extends_update split: if_splits)
      with k show ?thesis by (auto intro: extends_trans)
    qed
  qed
qed

lemma preserving_Fail: "preserving (Fail e)"
  unfolding preserving_def using Fail_extends by fastforce

lemma ancestor_or_self_iff:
  "ancestor_or_self h a e \<longleftrightarrow>
     a = e \<or> (e < length h \<and> (\<exists>p. parent (h ! e) = Some p \<and> ancestor_or_self h a p))"
  by (auto intro: ancestor_or_self.intros elim: ancestor_or_self.cases)

lemma ancestor_le: "ancestor_or_self h a e \<Longrightarrow> wf_heap h \<Longrightarrow> a \<le> e"
  by (induction rule: ancestor_or_self.induct) (auto simp: wf_heap_iff dest: less_imp_le)

lemma ancestor_same_parents:
  "ancestor_or_self h a e \<Longrightarrow> length h' = length h \<Longrightarrow>
   (\<And>b. b < length h \<Longrightarrow> parent (h' ! b) = parent (h ! b)) \<Longrightarrow> ancestor_or_self h' a e"
  by (induction rule: ancestor_or_self.induct) (auto intro: ancestor_or_self.intros)

lemma ancestor_update:
  assumes "e < length h" and "parent t = parent (h ! e)"
  shows "ancestor_or_self (h[e := t]) a b \<longleftrightarrow> ancestor_or_self h a b"
proof
  assume "ancestor_or_self (h[e := t]) a b"
  then show "ancestor_or_self h a b"
  proof (rule ancestor_same_parents)
    show "length h = length (h[e := t])" by simp
    show "\<And>b. b < length (h[e := t]) \<Longrightarrow> parent (h ! b) = parent (h[e := t] ! b)"
      using assms by (simp add: nth_list_update)
  qed
next
  assume "ancestor_or_self h a b"
  then show "ancestor_or_self (h[e := t]) a b"
  proof (rule ancestor_same_parents)
    show "length (h[e := t]) = length h" by simp
    show "\<And>b. b < length h \<Longrightarrow> parent (h[e := t] ! b) = parent (h ! b)"
      using assms by (simp add: nth_list_update)
  qed
qed

lemma length_marked: "length (marked h e) = length h"
  by (simp add: marked_def)

lemma parent_marked: "a < length h \<Longrightarrow> parent (marked h e ! a) = parent (h ! a)"
  by (simp add: marked_def)

lemma failed_marked:
  "a < length h \<Longrightarrow> failed (marked h e ! a) \<longleftrightarrow> failed (h ! a) \<or> ancestor_or_self h a e"
  by (simp add: marked_def)

lemma wf_marked: "wf_heap h \<Longrightarrow> wf_heap (marked h e)"
  by (simp add: wf_heap_iff length_marked parent_marked)

text \<open>On a well-formed store \<^verbatim>\<open>Fail\<close> returns, having marked the whole chain.\<close>

lemma Fail_wf:
  "wf_heap h \<Longrightarrow> e < length h \<Longrightarrow> Fail e h = Some (Inr (), marked h e)"
proof (induction e rule: less_induct)
  case (less e)
  show ?case
  proof (cases "parent (h ! e)")
    case None
    have "\<And>a. ancestor_or_self h a e \<longleftrightarrow> a = e"
      using None by (subst ancestor_or_self_iff) simp
    then have "marked h e = h[e := (h ! e)\<lparr>failed := True\<rparr>]"
      using less.prems by (auto simp: marked_def intro!: nth_equalityI)
    with None less.prems show ?thesis by (simp add: Fail_root)
  next
    case (Some p)
    with less.prems have pe: "p < e" by (auto simp: wf_heap_iff)
    then have pl: "p < length h" using less.prems by simp
    have f: "Fail p h = Some (Inr (), marked h p)"
      using less.IH[OF pe less.prems(1) pl] .
    have anc: "\<And>a. ancestor_or_self h a e \<longleftrightarrow> a = e \<or> ancestor_or_self h a p"
      using Some less.prems by (subst ancestor_or_self_iff) simp
    have np: "\<not> ancestor_or_self h e p"
      using ancestor_le[of h e p] less.prems(1) pe by auto
    have "(marked h p)[e := (marked h p ! e)\<lparr>failed := True\<rparr>] = marked h e"
      using less.prems np by (auto simp: marked_def anc nth_list_update intro!: nth_equalityI)
    with f Some less.prems show ?thesis
      by (simp add: Fail_child bind_def assign_def marked_def)
  qed
qed

lemma returning_Fail: "returning (Fail e)"
  unfolding returning_def
proof (intro allI impI)
  fix h :: "'a heap"
  assume w: "wf_heap h"
  show "\<exists>r h'. Fail e h = Some (r, h') \<and> wf_heap h'"
  proof (cases "e < length h")
    case True
    with w show ?thesis by (simp add: Fail_wf wf_marked)
  next
    case False
    with w show ?thesis by (simp add: Fail_nil)
  qed
qed

lemma Error_wf:
  assumes "wf_heap h" and "e < length h"
  shows "Error e args h =
     Some (Inr (), marked (h[e := (h ! e)\<lparr>logs := logs (h ! e) @ Sprintln args\<rparr>]) e)"
proof -
  let ?h1 = "h[e := (h ! e)\<lparr>logs := logs (h ! e) @ Sprintln args\<rparr>]"
  have "wf_heap ?h1" using assms by (simp add: wf_heap_update)
  then have "Fail e ?h1 = Some (Inr (), marked ?h1 e)"
    using assms(2) by (simp add: Fail_wf)
  with assms(2) show ?thesis
    by (simp add: Error_def bind_def Log_valid)
qed

lemma Errorf_wf:
  assumes "wf_heap h" and "e < length h"
  shows "Errorf X e format args h =
     Some (Inr (),
           marked (h[e := (h ! e)\<lparr>logs := logs (h ! e) @ Sprintf X (format @ ''\<newline>'') args\<rparr>]) e)"
proof -
  let ?h1 = "h[e := (h ! e)\<lparr>logs := logs (h ! e) @ Sprintf X (format @ ''\<newline>'') args\<rparr>]"
  have "wf_heap ?h1" using assms by (simp add: wf_heap_update)
  then have "Fail e ?h1 = Some (Inr (), marked ?h1 e)"
    using assms(2) by (simp add: Fail_wf)
  with assms(2) show ?thesis
    by (simp add: Errorf_def bind_def Logf_valid)
qed

lemma failed_marked_logged:
  assumes "wf_heap h" and "e < length h" and "a < length h"
  shows "failed (marked (h[e := (h ! e)\<lparr>logs := l\<rparr>]) e ! a) \<longleftrightarrow>
         failed (h ! a) \<or> ancestor_or_self h a e"
  using assms by (auto simp: failed_marked ancestor_update nth_list_update)

lemma Errorf_root:
  "e < length h \<Longrightarrow> parent (h ! e) = None \<Longrightarrow>
   Errorf X e format args h =
     Some (Inr (), h[e := (h ! e)\<lparr>logs := logs (h ! e) @ Sprintf X (format @ ''\<newline>'') args,
                                  failed := True\<rparr>])"
  by (simp add: Errorf_def bind_def Logf_valid Fail_root)

subsection \<open>Every method keeps what is in the store, and returns\<close>

lemma preserving_Log: "preserving (Log e args)"
  unfolding Log_def by (rule preserving_assign) simp

lemma preserving_Logf: "preserving (Logf X e format args)"
  unfolding Logf_def by (rule preserving_assign) simp

lemma returning_Log: "returning (Log e args)"
  unfolding Log_def by (rule returning_assign) simp

lemma returning_Logf: "returning (Logf X e format args)"
  unfolding Logf_def by (rule returning_assign) simp

lemma preserving_FailNow: "preserving (FailNow e)"
  unfolding FailNow_def by (intro preserving_bind preserving_assign preserving_panic) simp

lemma returning_FailNow: "returning (FailNow e)"
  unfolding FailNow_def by (intro returning_bind returning_assign returning_panic) simp

lemma preserving_SkipNow: "preserving (SkipNow e)"
  unfolding SkipNow_def by (intro preserving_bind preserving_assign preserving_panic) simp

lemma returning_SkipNow: "returning (SkipNow e)"
  unfolding SkipNow_def by (intro returning_bind returning_assign returning_panic) simp

lemma preserving_New: "preserving (New c n)"
  by (auto simp: preserving_def New_def extends_append)

lemmas preserving_ops =
  preserving_return preserving_panic preserving_deref preserving_Log preserving_Logf
  preserving_Fail preserving_FailNow preserving_SkipNow preserving_New

lemmas returning_ops =
  returning_return returning_panic returning_deref returning_Log returning_Logf
  returning_Fail returning_FailNow returning_SkipNow

lemma preserving_methods:
  "preserving (Error e args)" "preserving (Errorf X e format args)"
  "preserving (Fatal e args)" "preserving (Fatalf X e format args)"
  "preserving (Skip e args)" "preserving (Skipf X e format args)"
  "preserving (Failed e)" "preserving (Skipped e)" "preserving (Logs e)"
  "preserving (Name e)" "preserving (Context e)"
  unfolding Error_def Errorf_def Fatal_def Fatalf_def Skip_def Skipf_def Failed_def Skipped_def
    Logs_def Name_def Context_def
  by (intro preserving_bind preserving_ops)+

lemma returning_methods:
  "returning (Error e args)" "returning (Errorf X e format args)"
  "returning (Fatal e args)" "returning (Fatalf X e format args)"
  "returning (Skip e args)" "returning (Skipf X e format args)"
  "returning (Failed e)" "returning (Skipped e)" "returning (Logs e)"
  "returning (Name e)" "returning (Context e)"
  unfolding Error_def Errorf_def Fatal_def Fatalf_def Skip_def Skipf_def Failed_def Skipped_def
    Logs_def Name_def Context_def
  by (intro returning_bind returning_ops)+

section \<open>The two interception boundaries\<close>

lemma T_Run_deferred_other:
  "x \<noteq> testFailed \<Longrightarrow> x \<noteq> testSkipped \<Longrightarrow>
   T_Run_deferred X sub (Some x) =
     bind (Errorf X sub ''PANIC: %v'' [x]) (\<lambda>_. Error sub [GoBytes (debug_Stack X sub)])"
  by (cases x) simp_all

lemma Run_deferred_other:
  "x \<noteq> testFailed \<Longrightarrow> x \<noteq> testSkipped \<Longrightarrow>
   Run_deferred X t (Some x) = Errorf X t ''PANIC: %v'' [x]"
  by (cases x) simp_all

lemma preserving_T_Run_deferred: "preserving (T_Run_deferred X sub x)"
  by (cases "(X, sub, x)" rule: T_Run_deferred.cases)
     (auto intro!: preserving_bind preserving_methods preserving_ops)

lemma returning_T_Run_deferred: "returning (T_Run_deferred X sub x)"
  by (cases "(X, sub, x)" rule: T_Run_deferred.cases)
     (auto intro!: returning_bind returning_methods returning_ops)

lemma preserving_Run_deferred: "preserving (Run_deferred X t x)"
  by (cases "(X, t, x)" rule: Run_deferred.cases)
     (auto intro!: preserving_methods preserving_ops)

lemma returning_Run_deferred: "returning (Run_deferred X t x)"
  by (cases "(X, t, x)" rule: Run_deferred.cases)
     (auto intro!: returning_methods returning_ops)

lemma T_Run_valid:
  "e < length h \<Longrightarrow>
   T_Run X e nm cb h =
     defer_recover (bind (cb (length h)) (\<lambda>_. bind (Failed (length h)) (\<lambda>f. return (\<not> f))))
       (T_Run_deferred X (length h)) False (h @ [child h e nm])"
  by (simp add: T_Run_def bind_def deref_def New_def assign_def child_def)

lemma T_Run_nil: "\<not> e < length h \<Longrightarrow> T_Run X e nm cb h = Some (Inl nil_dereference, h)"
  by (simp add: T_Run_def bind_def deref_def)

lemma preserving_T_Run:
  assumes cb: "\<And>sub. preserving (cb sub)"
  shows "preserving (T_Run X e nm cb)"
  unfolding preserving_def
proof (intro allI impI)
  fix h r h'
  assume a: "T_Run X e nm cb h = Some (r, h')"
  show "extends h h'"
  proof (cases "e < length h")
    case False
    with a show ?thesis by (simp add: T_Run_nil extends_refl)
  next
    case True
    have "preserving (defer_recover
            (bind (cb (length h)) (\<lambda>_. bind (Failed (length h)) (\<lambda>f. return (\<not> f))))
            (T_Run_deferred X (length h)) False)"
      by (intro preserving_defer_recover preserving_bind cb preserving_methods preserving_ops
            preserving_T_Run_deferred)
    with a True have "extends (h @ [child h e nm]) h'"
      by (auto simp: T_Run_valid dest: preservingD)
    with extends_append show ?thesis by (rule extends_trans)
  qed
qed

lemma returning_T_Run:
  assumes cb: "\<And>sub. returning (cb sub)"
  shows "returning (T_Run X e nm cb)"
  unfolding returning_def
proof (intro allI impI)
  fix h :: "'a heap"
  assume w: "wf_heap h"
  show "\<exists>r h'. T_Run X e nm cb h = Some (r, h') \<and> wf_heap h'"
  proof (cases "e < length h")
    case False
    with w show ?thesis by (simp add: T_Run_nil)
  next
    case True
    have "returning (defer_recover
            (bind (cb (length h)) (\<lambda>_. bind (Failed (length h)) (\<lambda>f. return (\<not> f))))
            (T_Run_deferred X (length h)) False)"
      by (intro returning_defer_recover returning_bind cb returning_methods returning_ops
            returning_T_Run_deferred)
    from returningD[OF this wf_heap_child[OF w True]] True show ?thesis
      by (simp add: T_Run_valid)
  qed
qed

text \<open>The deferred function of \<^verbatim>\<open>T.Run\<close> on an unexpected value.\<close>

lemma T_Run_deferred_wf:
  assumes "wf_heap h" and "sub < length h" and "x \<noteq> testFailed" and "x \<noteq> testSkipped"
  shows "\<exists>h'. T_Run_deferred X sub (Some x) h = Some (Inr (), h') \<and> failed (h' ! sub)
           \<and> length h' = length h"
proof -
  let ?h1 = "marked (h[sub := (h ! sub)\<lparr>logs := logs (h ! sub) @
                      Sprintf X (''PANIC: %v'' @ ''\<newline>'') [x]\<rparr>]) sub"
  have 1: "Errorf X sub ''PANIC: %v'' [x] h = Some (Inr (), ?h1)"
    using assms by (simp add: Errorf_wf)
  have w: "wf_heap ?h1" "sub < length ?h1"
    using assms by (simp_all add: wf_marked wf_heap_update length_marked)
  from Error_wf[OF w] w(2) 1 assms(2,3,4) show ?thesis
    by (simp add: T_Run_deferred_other bind_def failed_marked length_marked
          ancestor_or_self.self del: append.simps)
qed

text \<open>The entry point, once its deferred function has run.\<close>

lemma Run_unfold:
  "Run X c cb h =
     bind (defer_recover (cb (length h)) (Run_deferred X (length h)) ()) (\<lambda>_.
     bind (Failed (length h)) (\<lambda>f.
       if f then
         bind (Logs (length h)) (\<lambda>l. return (errorString (''test failed:\<newline>'' @ l)))
       else return nil)) (h @ [root c])"
  by (simp add: Run_def bind_New root_def Sprintf_test_failed cong: if_cong)

lemma Run_after_callback:
  assumes "defer_recover (cb (length h)) (Run_deferred X (length h)) () (h @ [root c])
             = Some (Inr (), h3)"
    and "length h < length h3"
  shows "Run X c cb h =
     Some (Inr (if failed (h3 ! length h)
                then errorString (''test failed:\<newline>'' @ logs (h3 ! length h)) else nil), h3)"
  using assms
  by (simp add: Run_unfold bind_Inr) (simp add: bind_def Failed_def Logs_def deref_def return_def)

lemma recover_marker:
  "cb (length h) (h @ [root c]) = Some (Inl m, h2) \<Longrightarrow> m = testSkipped \<or> m = testFailed \<Longrightarrow>
   defer_recover (cb (length h)) (Run_deferred X (length h)) () (h @ [root c]) = Some (Inr (), h2)"
  by (auto simp: defer_recover_def bind_def return_def)

lemma recover_return:
  "cb (length h) (h @ [root c]) = Some (Inr u, h2) \<Longrightarrow>
   defer_recover (cb (length h)) (Run_deferred X (length h)) () (h @ [root c]) = Some (Inr (), h2)"
  by (simp add: defer_recover_def bind_def return_def)

lemma recover_other:
  assumes "cb (length h) (h @ [root c]) = Some (Inl x, h2)"
    and "x \<noteq> testFailed" and "x \<noteq> testSkipped"
    and "length h < length h2" and "parent (h2 ! length h) = None"
  shows "defer_recover (cb (length h)) (Run_deferred X (length h)) () (h @ [root c]) =
     Some (Inr (), h2[length h := (h2 ! length h)\<lparr>logs := logs (h2 ! length h) @
                                     ''PANIC: '' @ fmt_v x @ ''\<newline>'', failed := True\<rparr>])"
  using assms Sprintf_PANIC[of X x]
  by (simp add: defer_recover_def Run_deferred_other Errorf_root bind_def return_def)

section \<open>Test code keeps the store well formed and returns\<close>

lemma exec_preserving_returning:
  fixes X :: extern
  shows "preserving (exec X env c :: ('c, unit) M) \<and> returning (exec X env c :: ('c, unit) M)"
    and "preserving (exec_list X env cs :: ('c, unit) M)
         \<and> returning (exec_list X env cs :: ('c, unit) M)"
proof (induction X env c and X env cs rule: exec_exec_list.induct)
  case (20 X env tg nm body cs ds)
  have b: "\<And>sub. preserving (exec_list X (sub # env) body :: ('c, unit) M)"
          "\<And>sub. returning (exec_list X (sub # env) body :: ('c, unit) M)"
    using 20(1) by auto
  have "preserving (on env tg (\<lambda>e. T_Run X e nm (\<lambda>sub. exec_list X (sub # env) body))
                    :: ('c, bool) M)"
    by (intro preserving_on preserving_T_Run b)
  moreover
  have "returning (on env tg (\<lambda>e. T_Run X e nm (\<lambda>sub. exec_list X (sub # env) body))
                   :: ('c, bool) M)"
    by (intro returning_on returning_T_Run b)
  ultimately show ?case
    using 20(2,3) by (auto intro!: preserving_bind returning_bind)
next
  case (21 X env body handler)
  have "\<And>x. preserving ((case x of None \<Rightarrow> return () | Some _ \<Rightarrow> exec_list X env handler)
                         :: ('c, unit) M)"
       "\<And>x. returning ((case x of None \<Rightarrow> return () | Some _ \<Rightarrow> exec_list X env handler)
                        :: ('c, unit) M)"
    using 21(2) by (auto simp: preserving_ops returning_ops split: option.splits)
  then show ?case
    using 21(1) by (auto intro!: preserving_defer_recover returning_defer_recover)
qed (auto intro!: preserving_on returning_on preserving_bind returning_bind
          preserving_methods returning_methods preserving_ops returning_ops
          simp: discard_def)

lemma exec_list_returns:
  assumes "wf_heap h"
  shows "\<exists>r h'. exec_list X env p h = Some (r, h') \<and> wf_heap h' \<and> extends h h'"
proof -
  from exec_preserving_returning(2)[of X env p]
  have p: "preserving (exec_list X env p :: ('a, unit) M)"
    and r: "returning (exec_list X env p :: ('a, unit) M)" by auto
  from returningD[OF r assms] obtain r h' where
    "exec_list X env p h = Some (r, h')" "wf_heap h'" by blast
  with preservingD[OF p] show ?thesis by blast
qed

text \<open>
  Test code as a callback, of the entry point or of a subtest, on a well-formed store:
  its invocation ends, in a well-formed store that still holds the context it was given,
  and the root it was given has no parent.
\<close>

lemma program_at_top:
  assumes "wf_heap h"
  shows "\<exists>r h2. exec_list X (length h # env) p (h @ [root c]) = Some (r, h2)
           \<and> length h < length h2 \<and> parent (h2 ! length h) = None \<and> wf_heap h2"
proof -
  from exec_list_returns[OF wf_heap_root[OF assms]] obtain r h2 where
    "exec_list X (length h # env) p (h @ [root c]) = Some (r, h2)" "wf_heap h2"
    "extends (h @ [root c]) h2"
    by blast
  then show ?thesis by (auto simp: extends_def root_def)
qed

lemma program_in_subtest:
  assumes "wf_heap h" and "e < length h"
  shows "\<exists>r h2. exec_list X (length h # env) p (h @ [child h e nm]) = Some (r, h2)
           \<and> length h < length h2 \<and> wf_heap h2"
proof -
  from exec_list_returns[OF wf_heap_child[OF assms]] obtain r h2 where
    "exec_list X (length h # env) p (h @ [child h e nm]) = Some (r, h2)" "wf_heap h2"
    "extends (h @ [child h e nm]) h2"
    by blast
  then show ?thesis by (auto simp: extends_def)
qed

text \<open>
  So the entry point, given test code on a well-formed store, returns an \<^verbatim>\<open>error\<close>
  value: it neither panics nor runs forever.
\<close>

lemma Run_program:
  assumes "wf_heap h"
  shows "\<exists>h'. Run X c (\<lambda>t. exec_list X (t # env) p) h =
     Some (Inr (if failed (h' ! length h)
                then errorString (''test failed:\<newline>'' @ logs (h' ! length h)) else nil), h')"
proof -
  let ?t = "length h"
  let ?cb = "\<lambda>t. exec_list X (t # env) p :: ('a, unit) M"
  from exec_list_returns[OF wf_heap_root[OF assms]] obtain r h2 where
    1: "?cb ?t (h @ [root c]) = Some (r, h2)" and "extends (h @ [root c]) h2"
    by blast
  then have l: "length h < length h2" and n: "parent (h2 ! ?t) = None"
    by (auto simp: extends_def root_def)
  have "\<exists>h3. defer_recover (?cb ?t) (Run_deferred X ?t) () (h @ [root c]) = Some (Inr (), h3)
          \<and> length h < length h3"
  proof (cases r)
    case (Inr u)
    with 1 l show ?thesis by (auto dest: recover_return)
  next
    case (Inl x)
    show ?thesis
    proof (cases "x = testSkipped \<or> x = testFailed")
      case True
      with 1 Inl l show ?thesis by (auto dest: recover_marker)
    next
      case False
      with recover_other[of ?cb h c x h2 X] 1 Inl l n show ?thesis by auto
    qed
  qed
  then obtain h3 where
    "defer_recover (?cb ?t) (Run_deferred X ?t) () (h @ [root c]) = Some (Inr (), h3)"
    "length h < length h3" by blast
  from Run_after_callback[of ?cb h X c h3, OF this] show ?thesis by blast
qed

section \<open>The stores that test code observes\<close>

lemma flags_kept_extends: "extends h h' \<Longrightarrow> flags_kept h h'"
  by (simp add: extends_def flags_kept_def)

lemma bind_extends:
  assumes k: "\<And>x. preserving (k x)" and b: "bind m k h = Some (r, h')"
  shows "\<exists>r1 h1. m h = Some (r1, h1) \<and> extends h1 h'"
proof -
  from b obtain r1 h1 where 1: "m h = Some (r1, h1)"
    by (cases "m h") (auto simp: bind_def)
  show ?thesis
  proof (cases r1)
    case (Inl v)
    with b 1 show ?thesis by (simp add: bind_def extends_refl)
  next
    case (Inr x)
    with b 1 have "k x h1 = Some (r, h')" by (simp add: bind_def)
    with k have "extends h1 h'" by (rule preservingD)
    with 1 show ?thesis by blast
  qed
qed

lemma defer_recover_extends:
  assumes d: "\<And>x. preserving (d x)" and b: "defer_recover body d z h = Some (r, h')"
  shows "\<exists>r1 h1. body h = Some (r1, h1) \<and> extends h1 h'"
proof -
  from b obtain r1 h1 where 1: "body h = Some (r1, h1)"
    by (cases "body h") (auto simp: defer_recover_def)
  have p: "\<And>x u. preserving (bind (d x) (\<lambda>_. return u))"
    by (intro preserving_bind d preserving_return)
  have "extends h1 h'"
  proof (cases r1)
    case (Inl v)
    with b 1 have "bind (d (Some v)) (\<lambda>_. return z) h1 = Some (r, h')"
      by (simp add: defer_recover_def)
    with p show ?thesis by (rule preservingD)
  next
    case (Inr x)
    with b 1 have "bind (d None) (\<lambda>_. return x) h1 = Some (r, h')"
      by (simp add: defer_recover_def)
    with p show ?thesis by (rule preservingD)
  qed
  with 1 show ?thesis by blast
qed

text \<open>
  What the two boundaries do after the callback has ended keeps everything the callback
  left in the store.
\<close>

lemma T_Run_after_body:
  assumes e: "e < length h" and t: "T_Run X e nm cb h = Some (r', h')"
  shows "\<exists>r h2. cb (length h) (h @ [child h e nm]) = Some (r, h2) \<and> extends h2 h'"
proof -
  let ?body = "bind (cb (length h)) (\<lambda>_. bind (Failed (length h)) (\<lambda>f. return (\<not> f)))"
  from t e have "defer_recover ?body (T_Run_deferred X (length h)) False (h @ [child h e nm])
                   = Some (r', h')"
    by (simp add: T_Run_valid)
  from defer_recover_extends[OF preserving_T_Run_deferred this]
  obtain r1 h1 where 1: "?body (h @ [child h e nm]) = Some (r1, h1)" and 2: "extends h1 h'"
    by blast
  have "\<And>x. preserving (bind (Failed (length h)) (\<lambda>f. return (\<not> f)) :: ('a, bool) M)"
    by (intro preserving_bind preserving_methods preserving_ops)
  from bind_extends[of "\<lambda>_. bind (Failed (length h)) (\<lambda>f. return (\<not> f))", OF this 1]
  obtain r h2 where "cb (length h) (h @ [child h e nm]) = Some (r, h2)" "extends h2 h1"
    by blast
  with 2 show ?thesis by (blast intro: extends_trans)
qed

lemma Run_after_body:
  assumes t: "Run X c cb h = Some (r', h')"
  shows "\<exists>r h2. cb (length h) (h @ [root c]) = Some (r, h2) \<and> extends h2 h'"
proof -
  let ?k = "\<lambda>_::unit. bind (Failed (length h)) (\<lambda>f.
       if f then
         bind (Logs (length h)) (\<lambda>l. return (errorString (''test failed:\<newline>'' @ l)))
       else return nil) :: ('a, error) M"
  have k: "\<And>x. preserving (?k x)"
    by (intro preserving_bind preserving_methods) (simp add: preserving_bind preserving_methods preserving_ops)
  from t have "bind (defer_recover (cb (length h)) (Run_deferred X (length h)) ()) ?k (h @ [root c])
                 = Some (r', h')"
    by (simp add: Run_unfold)
  from bind_extends[of ?k, OF k this]
  obtain r1 h1 where
    1: "defer_recover (cb (length h)) (Run_deferred X (length h)) () (h @ [root c]) = Some (r1, h1)"
    and 2: "extends h1 h'" by blast
  from defer_recover_extends[OF preserving_Run_deferred 1]
  obtain r h2 where "cb (length h) (h @ [root c]) = Some (r, h2)" "extends h2 h1"
    by blast
  with 2 show ?thesis by (blast intro: extends_trans)
qed

subsection \<open>Chains of stores\<close>

lemma chain_single: "extends h h1 \<Longrightarrow> sorted_wrt extends [h, h1]"
  by simp

lemma chain_seq:
  assumes "sorted_wrt extends (h # xs)" and "\<forall>s\<in>set (h # xs). extends s h1"
    and "sorted_wrt extends (h1 # ys)"
  shows "sorted_wrt extends (h # xs @ ys)"
  using assms by (auto simp: sorted_wrt_append intro: extends_trans)

lemma chain_seq_mid:
  assumes "sorted_wrt extends (h # xs)" and "\<forall>s\<in>set (h # xs). extends s h1"
    and "sorted_wrt extends (h1 # ys)"
  shows "sorted_wrt extends (h # xs @ h1 # ys)"
  using assms by (auto simp: sorted_wrt_append intro: extends_trans)

lemma leads_seq:
  assumes "\<forall>s\<in>set (h # xs). extends s h1" and "\<forall>s\<in>set (h1 # ys). extends s h'"
  shows "\<forall>s\<in>set (h # xs @ h1 # ys). extends s h'" "\<forall>s\<in>set (h # xs @ ys). extends s h'"
  using assms by (auto intro: extends_trans)

lemma preserving_exec: "preserving (exec X env c)" "preserving (exec_list X env cs)"
  using exec_preserving_returning by blast+

lemma after_chain:
  assumes "preserving m"
  shows "sorted_wrt extends (h # after m h)"
    and "\<forall>r h'. m h = Some (r, h') \<longrightarrow> (\<forall>s\<in>set (h # after m h). extends s h')"
  using preservingD[OF assms, of h]
  by (auto simp: after_def extends_refl split: option.splits)

lemmas after_chain_exec = after_chain[OF preserving_exec(1)]

text \<open>
  The observed stores form a chain for \<open>extends\<close> that starts at the initial store,
  and the store in which the test code ends extends every one of them.
\<close>

lemma obs_chain:
  fixes X :: extern
  shows "sorted_wrt extends (h # obs X env c h) \<and>
           (\<forall>r h'. exec X env c h = Some (r, h') \<longrightarrow>
              (\<forall>s\<in>set (h # obs X env c (h :: 'c heap)). extends s h'))"
    and "sorted_wrt extends (h # obs_list X env cs h) \<and>
           (\<forall>r h'. exec_list X env cs h = Some (r, h') \<longrightarrow>
              (\<forall>s\<in>set (h # obs_list X env cs (h :: 'c heap)). extends s h'))"
proof (induction X env c h and X env cs h rule: obs_obs_list.induct)
  case (1 X env tg cs ds h)
  let ?m = "on env tg Failed :: ('c, bool) M"
  have pm: "preserving ?m" by (intro preserving_on preserving_methods)
  show ?case
  proof (cases "?m h")
    case None
    then show ?thesis by (simp add: bind_def)
  next
    case (Some y)
    then obtain r1 h1 where m: "?m h = Some (r1, h1)" by (cases y) auto
    from preservingD[OF pm m] have e: "extends h h1" .
    show ?thesis
    proof (cases r1)
      case (Inl v)
      with m e show ?thesis by (simp add: bind_def extends_refl)
    next
      case (Inr b)
      let ?ys = "if b then obs_list X env cs h1 else obs_list X env ds h1"
      let ?k = "if b then exec_list X env cs else exec_list X env ds :: ('c, unit) M"
      from m Inr 1(1)[of "(Inr b, h1)" "Inr b" h1 b] 1(2)[of "(Inr b, h1)" "Inr b" h1 b]
      have ih: "sorted_wrt extends (h1 # ?ys)"
        "\<And>r h'. ?k h1 = Some (r, h') \<Longrightarrow> \<forall>s\<in>set (h1 # ?ys). extends s h'"
        by (auto split: if_splits)
      have o: "obs X env (IfFailedC tg cs ds) h = h1 # ?ys"
        using m Inr by simp
      have x: "exec X env (IfFailedC tg cs ds) h = ?k h1"
        using m Inr by (simp add: bind_def)
      have "sorted_wrt extends (h # h1 # ?ys)"
        using chain_seq_mid[of h "[]" h1 ?ys] e ih(1) by simp
      moreover have "\<And>r h'. ?k h1 = Some (r, h') \<Longrightarrow> \<forall>s\<in>set (h # h1 # ?ys). extends s h'"
        using leads_seq(1)[of h "[]" h1 ?ys] e ih(2) by simp
      ultimately show ?thesis unfolding o x by blast
    qed
  qed
next
  case (2 X env tg cs ds h)
  let ?m = "on env tg Skipped :: ('c, bool) M"
  have pm: "preserving ?m" by (intro preserving_on preserving_methods)
  show ?case
  proof (cases "?m h")
    case None
    then show ?thesis by (simp add: bind_def)
  next
    case (Some y)
    then obtain r1 h1 where m: "?m h = Some (r1, h1)" by (cases y) auto
    from preservingD[OF pm m] have e: "extends h h1" .
    show ?thesis
    proof (cases r1)
      case (Inl v)
      with m e show ?thesis by (simp add: bind_def extends_refl)
    next
      case (Inr b)
      let ?ys = "if b then obs_list X env cs h1 else obs_list X env ds h1"
      let ?k = "if b then exec_list X env cs else exec_list X env ds :: ('c, unit) M"
      from m Inr 2(1)[of "(Inr b, h1)" "Inr b" h1 b] 2(2)[of "(Inr b, h1)" "Inr b" h1 b]
      have ih: "sorted_wrt extends (h1 # ?ys)"
        "\<And>r h'. ?k h1 = Some (r, h') \<Longrightarrow> \<forall>s\<in>set (h1 # ?ys). extends s h'"
        by (auto split: if_splits)
      have o: "obs X env (IfSkippedC tg cs ds) h = h1 # ?ys"
        using m Inr by simp
      have x: "exec X env (IfSkippedC tg cs ds) h = ?k h1"
        using m Inr by (simp add: bind_def)
      have "sorted_wrt extends (h # h1 # ?ys)"
        using chain_seq_mid[of h "[]" h1 ?ys] e ih(1) by simp
      moreover have "\<And>r h'. ?k h1 = Some (r, h') \<Longrightarrow> \<forall>s\<in>set (h # h1 # ?ys). extends s h'"
        using leads_seq(1)[of h "[]" h1 ?ys] e ih(2) by simp
      ultimately show ?thesis unfolding o x by blast
    qed
  qed
next
  case (3 X env tg nm body cs ds h)
  show ?case
  proof (cases "resolve env tg")
    case None
    then show ?thesis by (simp add: on_def bind_def panic_def extends_refl)
  next
    case (Some e)
    show ?thesis
    proof (cases "e < length h")
      case False
      with Some show ?thesis by (simp add: on_def bind_def T_Run_nil extends_refl)
    next
      case True
      let ?h0 = "h @ [child h e nm]"
      let ?cb = "\<lambda>sub. exec_list X (sub # env) body :: ('c, unit) M"
      let ?bs = "obs_list X (length h # env) body ?h0"
      from 3(1)[OF Some True]
      have ihb: "sorted_wrt extends (?h0 # ?bs)"
        "\<And>r h2. ?cb (length h) ?h0 = Some (r, h2) \<Longrightarrow> \<forall>s\<in>set (?h0 # ?bs). extends s h2"
        by auto
      have e0: "extends h ?h0" by (rule extends_append)
      have c0: "sorted_wrt extends (h # ?h0 # ?bs)"
        using chain_seq_mid[of h "[]" ?h0 ?bs] e0 ihb(1) by simp
      show ?thesis
      proof (cases "T_Run X e nm ?cb h")
        case None
        with Some True c0 show ?thesis by (simp add: on_def bind_def)
      next
        case (Some y)
        then obtain rr h1 where t: "T_Run X e nm ?cb h = Some (rr, h1)" by (cases y) auto
        from T_Run_after_body[OF True t] obtain r h2 where
          b: "?cb (length h) ?h0 = Some (r, h2)" and e2: "extends h2 h1" by blast
        from ihb(2)[OF b] e2 have l0: "\<forall>s\<in>set (?h0 # ?bs). extends s h1"
          by (auto intro: extends_trans)
        with e0 have l1: "\<forall>s\<in>set (h # ?h0 # ?bs). extends s h1"
          by (auto intro: extends_trans)
        show ?thesis
        proof (cases rr)
          case (Inl v)
          have o: "obs X env (RunC tg nm body cs ds) h = (?h0 # ?bs) @ [h1]"
            using \<open>resolve env tg = Some e\<close> True t Inl by simp
          have x: "exec X env (RunC tg nm body cs ds) h = Some (Inl v, h1)"
            using \<open>resolve env tg = Some e\<close> t Inl by (simp add: on_def bind_def)
          have "sorted_wrt extends (h # (?h0 # ?bs) @ [h1])"
            by (rule chain_seq_mid[OF c0 l1]) simp
          moreover have "\<forall>s\<in>set (h # (?h0 # ?bs) @ [h1]). extends s h1"
            using l1 by (auto simp: extends_refl)
          ultimately show ?thesis unfolding o x by simp
        next
          case (Inr b)
          let ?ys = "if b then obs_list X env cs h1 else obs_list X env ds h1"
          let ?k = "if b then exec_list X env cs else exec_list X env ds :: ('c, unit) M"
          from t Inr 3(2)[OF \<open>resolve env tg = Some e\<close> True, of "(Inr b, h1)" "Inr b" h1 b]
            3(3)[OF \<open>resolve env tg = Some e\<close> True, of "(Inr b, h1)" "Inr b" h1 b]
          have ih: "sorted_wrt extends (h1 # ?ys)"
            "\<And>r h'. ?k h1 = Some (r, h') \<Longrightarrow> \<forall>s\<in>set (h1 # ?ys). extends s h'"
            by (auto split: if_splits)
          have o: "obs X env (RunC tg nm body cs ds) h = (?h0 # ?bs) @ h1 # ?ys"
            using \<open>resolve env tg = Some e\<close> True t Inr by simp
          have x: "exec X env (RunC tg nm body cs ds) h = ?k h1"
            using \<open>resolve env tg = Some e\<close> t Inr by (simp add: on_def bind_def)
          have "sorted_wrt extends (h # (?h0 # ?bs) @ h1 # ?ys)"
            by (rule chain_seq_mid[OF c0 l1 ih(1)])
          moreover
          have "\<And>r h'. ?k h1 = Some (r, h') \<Longrightarrow> \<forall>s\<in>set (h # (?h0 # ?bs) @ h1 # ?ys). extends s h'"
            by (rule leads_seq(1)[OF l1 ih(2)])
          ultimately show ?thesis unfolding o x by blast
        qed
      qed
    qed
  qed
next
  case (4 X env body handler h)
  let ?bs = "obs_list X env body h"
  from 4(1) have ihb: "sorted_wrt extends (h # ?bs)"
    "\<And>r h1. exec_list X env body h = Some (r, h1) \<Longrightarrow> \<forall>s\<in>set (h # ?bs). extends s h1"
    by auto
  show ?case
  proof (cases "exec_list X env body h")
    case None
    with ihb(1) show ?thesis by (simp add: defer_recover_def after_def)
  next
    case (Some y)
    then obtain r1 h1 where b: "exec_list X env body h = Some (r1, h1)" by (cases y) auto
    note l1 = ihb(2)[OF b]
    show ?thesis
    proof (cases r1)
      case (Inr u)
      have x: "exec X env (RecoverC body handler) h = Some (Inr u, h1)"
        using b Inr by (simp add: defer_recover_def bind_def return_def)
      have o: "obs X env (RecoverC body handler) h = ?bs @ [h1]"
        using b Inr x by (simp add: after_def)
      have "sorted_wrt extends (h # ?bs @ [h1])"
        by (rule chain_seq_mid[OF ihb(1) l1]) simp
      moreover have "\<forall>s\<in>set (h # ?bs @ [h1]). extends s h1"
        using l1 by (auto simp: extends_refl)
      ultimately show ?thesis unfolding o x by simp
    next
      case (Inl v)
      let ?hs = "obs_list X env handler h1"
      from 4(2)[of "(Inl v, h1)" "Inl v" h1 v] b Inl
      have ihh: "sorted_wrt extends (h1 # ?hs)"
        "\<And>r h'. exec_list X env handler h1 = Some (r, h') \<Longrightarrow> \<forall>s\<in>set (h1 # ?hs). extends s h'"
        by auto
      have c1: "sorted_wrt extends (h # ?bs @ ?hs)"
        by (rule chain_seq[OF ihb(1) l1 ihh(1)])
      show ?thesis
      proof (cases "exec_list X env handler h1")
        case None
        have x: "exec X env (RecoverC body handler) h = None"
          using b Inl None by (simp add: defer_recover_def bind_def)
        have o: "obs X env (RecoverC body handler) h = ?bs @ ?hs"
          using b Inl x by (simp add: after_def)
        show ?thesis unfolding o x using c1 by simp
      next
        case (Some z)
        then obtain r2 h2 where hd: "exec_list X env handler h1 = Some (r2, h2)"
          by (cases z) auto
        have l2: "\<forall>s\<in>set (h # ?bs @ ?hs). extends s h2"
          by (rule leads_seq(2)[OF l1 ihh(2)[OF hd]])
        have "\<exists>r'. exec X env (RecoverC body handler) h = Some (r', h2)"
          using b Inl hd by (cases r2) (simp_all add: defer_recover_def bind_def return_def)
        then obtain r' where x: "exec X env (RecoverC body handler) h = Some (r', h2)" ..
        have o: "obs X env (RecoverC body handler) h = (?bs @ ?hs) @ [h2]"
          using b Inl x by (simp add: after_def)
        have "sorted_wrt extends (h # (?bs @ ?hs) @ [h2])"
          by (rule chain_seq_mid[OF c1 l2]) simp
        moreover have "\<forall>s\<in>set (h # (?bs @ ?hs) @ [h2]). extends s h2"
          using l2 by (auto simp: extends_refl)
        ultimately show ?thesis unfolding o x by simp
      qed
    qed
  qed
next
  case (6 X env h)
  show ?case by (simp add: return_def extends_refl)
next
  case (7 X env c cs h)
  let ?xs = "obs X env c h"
  from 7(1) have ihc: "sorted_wrt extends (h # ?xs)"
    "\<And>r h1. exec X env c h = Some (r, h1) \<Longrightarrow> \<forall>s\<in>set (h # ?xs). extends s h1"
    by auto
  show ?case
  proof (cases "exec X env c h")
    case None
    with ihc(1) show ?thesis by (simp add: bind_def)
  next
    case (Some y)
    then obtain r1 h1 where c: "exec X env c h = Some (r1, h1)" by (cases y) auto
    note l1 = ihc(2)[OF c]
    show ?thesis
    proof (cases r1)
      case (Inl v)
      with c ihc(1) l1 show ?thesis by (simp add: bind_def)
    next
      case (Inr u)
      let ?ys = "obs_list X env cs h1"
      from 7(2)[of "(Inr u, h1)" "Inr u" h1 u] c Inr
      have ih: "sorted_wrt extends (h1 # ?ys)"
        "\<And>r h'. exec_list X env cs h1 = Some (r, h') \<Longrightarrow> \<forall>s\<in>set (h1 # ?ys). extends s h'"
        by auto
      have o: "obs_list X env (c # cs) h = ?xs @ ?ys"
        using c Inr by simp
      have x: "exec_list X env (c # cs) h = exec_list X env cs h1"
        using c Inr by (simp add: bind_def)
      have "sorted_wrt extends (h # ?xs @ ?ys)"
        by (rule chain_seq[OF ihc(1) l1 ih(1)])
      moreover
      have "\<And>r h'. exec_list X env cs h1 = Some (r, h') \<Longrightarrow> \<forall>s\<in>set (h # ?xs @ ?ys). extends s h'"
        by (rule leads_seq(2)[OF l1 ih(2)])
      ultimately show ?thesis unfolding o x by blast
    qed
  qed
qed ((simp only: obs.simps after_chain_exec(1) simp_thms, rule after_chain_exec(2))+)


lemma obs_list_chain:
  "sorted_wrt extends (h # obs_list X env p h)"
  "exec_list X env p h = Some (r, h') \<Longrightarrow> \<forall>s\<in>set (h # obs_list X env p h). extends s h'"
  using obs_chain(2)[of h X env p] by blast+

section \<open>Sequences of logging calls\<close>



section \<open>The properties\<close>

lemmas eval =
  Run_def T_Run_def bind_def defer_recover_def return_def panic_def deref_def assign_def New_def
  Log_def Logf_def Error_def Errorf_def FailNow_def Fatal_def SkipNow_def Skip_def Failed_def
  Logs_def discard_def Sprintln_def Sprintf_def root_def child_def Fail_root Fail_child
  example_extern_def wf_heap_def on_def

text \<open>
  C1, as the code has it. \<^verbatim>\<open>T.Run\<close> returns \<^verbatim>\<open>true\<close> exactly when the callback
  returned normally and the child is not failed at the end. When the callback was ended
  by a panic, whether a marker or an unexpected value, the result is \<^verbatim>\<open>false\<close>: after a
  marker the store is left as the callback left it, after any other value the child has
  been marked failed. The callback is any computation that ends, in a well-formed store
  that still holds the child.
\<close>

theorem T_Run_result:
  assumes "e < length h"
    and "cb (length h) (h @ [child h e nm]) = Some (r, h2)"
    and "length h < length h2" and "wf_heap h2"
  shows "\<exists>b h'. T_Run X e nm cb h = Some (Inr b, h')
           \<and> (b \<longleftrightarrow> (\<exists>u. r = Inr u) \<and> \<not> failed (h' ! length h))
           \<and> (r = Inl testSkipped \<or> r = Inl testFailed \<longrightarrow> \<not> b \<and> h' = h2)
           \<and> (\<forall>x. r = Inl x \<and> x \<noteq> testSkipped \<and> x \<noteq> testFailed \<longrightarrow> failed (h' ! length h))"
proof (cases r)
  case (Inr u)
  with assms show ?thesis
    by (simp add: T_Run_valid defer_recover_def bind_def Failed_def deref_def return_def)
next
  case (Inl x)
  show ?thesis
  proof (cases "x = testFailed \<or> x = testSkipped")
    case True
    with Inl assms show ?thesis
      by (auto simp: T_Run_valid defer_recover_def bind_def return_def)
  next
    case False
    then have x: "x \<noteq> testFailed" "x \<noteq> testSkipped" by auto
    from T_Run_deferred_wf[OF assms(4,3) x, of X] obtain h' where
      "T_Run_deferred X (length h) (Some x) h2 = Some (Inr (), h')" "failed (h' ! length h)"
      by blast
    with Inl assms x show ?thesis
      by (auto simp: T_Run_valid defer_recover_def bind_def return_def)
  qed
qed

text \<open>
  C1, an instance: a subtest that panics with the string \<^verbatim>\<open>"unexpected panic"\<close> returns \<^verbatim>\<open>false\<close>
  and is marked failed.
\<close>

theorem T_Run_result_witness:
  "(0::nat) < length [root ()]
   \<and> panic (GoString ''unexpected panic'') ([root ()] @ [child [root ()] 0 ''sub''])
       = Some (Inl (GoString ''unexpected panic''), [root (), child [root ()] 0 ''sub''])
   \<and> length [root ()] < length [root (), child [root ()] 0 ''sub'']
   \<and> wf_heap [root (), child [root ()] 0 ''sub'']
   \<and> (\<exists>h'. T_Run example_extern 0 ''sub'' (\<lambda>sub. panic (GoString ''unexpected panic'')) [root ()]
              = Some (Inr False, h') \<and> failed (h' ! 1))"
  using T_Run_result[of 0 "[root ()]" "\<lambda>sub. panic (GoString ''unexpected panic'')" "''sub''"
      "Inl (GoString ''unexpected panic'')" "[root (), child [root ()] 0 ''sub'']" example_extern]
  by (auto simp: panic_def wf_heap_def root_def child_def)

text \<open>
  C1 as stated fails: the subtest \<^verbatim>\<open>func(sub *T) { sub.SkipNow() }\<close> ends with
  \<^verbatim>\<open>sub.Failed() == false\<close>, and \<^verbatim>\<open>T.Run\<close> returns \<^verbatim>\<open>false\<close>.
\<close>

theorem T_Run_skip_returns_false:
  "T_Run example_extern 0 ''sub'' SkipNow [root ()] =
     Some (Inr False, [root (), (child [root ()] 0 ''sub'')\<lparr>skipped := True\<rparr>])
   \<and> \<not> failed ([root (), (child [root ()] 0 ''sub'')\<lparr>skipped := True\<rparr>] ! 1)"
  by (simp add: eval)

text \<open>
  C2 fails on the code: \<^verbatim>\<open>FailNow\<close> sets the flag of its own context and does not
  walk up the parent pointers. Here a subtest calls \<^verbatim>\<open>sub.Fatal("boom")\<close>: the child is
  failed, the root is not, and the entry point returns nil.
\<close>

theorem FailNow_leaves_parent:
  "Run example_extern ()
     (\<lambda>t. discard (T_Run example_extern t ''sub'' (\<lambda>sub. Fatal sub [GoString ''boom'']))) [] =
   Some (Inr nil, [root (), (child [root ()] 0 ''sub'')\<lparr>logs := ''boom\<newline>'', failed := True\<rparr>])
   \<and> \<not> failed ([root (), (child [root ()] 0 ''sub'')\<lparr>logs := ''boom\<newline>'', failed := True\<rparr>] ! 0)"
  by (simp add: eval)

text \<open>
  What the entry point does when the callback ends with a panic whose value is neither
  marker: it appends the one line \<^verbatim>\<open>PANIC: \<close> and the value's text to the root's
  log, marks the root failed and changes nothing else, and returns the error
  \<^verbatim>\<open>test failed:\<close>, newline, and that log.
\<close>

lemma Run_unexpected_abort:
  assumes "cb (length h) (h @ [root c]) = Some (Inl x, h2)"
    and "x \<noteq> testFailed" and "x \<noteq> testSkipped"
    and "length h < length h2" and "parent (h2 ! length h) = None"
  shows "Run X c cb h =
     Some (Inr (errorString (''test failed:\<newline>'' @ logs (h2 ! length h) @
                             ''PANIC: '' @ fmt_v x @ ''\<newline>'')),
           h2[length h := (h2 ! length h)\<lparr>logs := logs (h2 ! length h) @
                             ''PANIC: '' @ fmt_v x @ ''\<newline>'', failed := True\<rparr>])"
proof -
  let ?h3 = "h2[length h := (h2 ! length h)\<lparr>logs := logs (h2 ! length h) @
                             ''PANIC: '' @ fmt_v x @ ''\<newline>'', failed := True\<rparr>]"
  have "length h < length ?h3" using assms(4) by simp
  from Run_after_callback[of cb h X c ?h3, OF recover_other[of cb h c x h2 X, OF assms] this]
    assms(4)
  show ?thesis by simp
qed

text \<open>
  C3 fails on the code. The top-level callback \<^verbatim>\<open>panic(42)\<close> aborts with a value that is
  neither a string nor an error, and \<^verbatim>\<open>Run\<close> logs the single line \<^verbatim>\<open>PANIC: 42\<close>: the
  root's log holds neither the trace nor the byte list that \<^verbatim>\<open>Error(debug.Stack())\<close>
  writes. The other boundary, \<^verbatim>\<open>T.Run\<close>, given the same panic in a subtest, does log
  the trace after the \<^verbatim>\<open>PANIC\<close> line.
\<close>

theorem Run_panic_logs_no_trace:
  "Run example_extern () (\<lambda>t. panic (GoInt 42)) [] =
     Some (Inr (errorString ''test failed:\<newline>PANIC: 42\<newline>''),
           [(root ())\<lparr>logs := ''PANIC: 42\<newline>'', failed := True\<rparr>])
   \<and> debug_Stack example_extern 0 = ''goroutine 1''
   \<and> \<not> Contains ''PANIC: 42\<newline>'' ''goroutine 1''
   \<and> \<not> Contains ''PANIC: 42\<newline>'' (fmt_v (GoBytes ''goroutine 1''))
   \<and> T_Run example_extern 0 ''sub'' (\<lambda>sub. panic (GoInt 42)) [root ()] =
        Some (Inr False,
              [(root ())\<lparr>failed := True\<rparr>,
               (child [root ()] 0 ''sub'')
                 \<lparr>logs := ''PANIC: 42\<newline>'' @ fmt_v (GoBytes ''goroutine 1'') @ ''\<newline>'',
                  failed := True\<rparr>])"
  by (simp add: eval show_int_def show_nat.simps digit_def)

text \<open>
  C4. Once the callback's invocation has ended, by a return, a marker or any other
  panic, \<^verbatim>\<open>Run\<close> returns: the error \<^verbatim>\<open>test failed:\<close>, newline, and the root's whole log
  when the root is failed at the end, and nil when it is not. The \<open>skipped\<close> flag plays
  no part.
\<close>

theorem Run_result:
  assumes "cb (length h) (h @ [root c]) = Some (r, h2)"
    and "length h < length h2" and "parent (h2 ! length h) = None"
  shows "\<exists>h'. Run X c cb h =
     Some (Inr (if failed (h' ! length h)
                then errorString (''test failed:\<newline>'' @ logs (h' ! length h))
                else nil), h')"
proof -
  let ?t = "length h"
  have "\<exists>h3. defer_recover (cb ?t) (Run_deferred X ?t) () (h @ [root c]) = Some (Inr (), h3)
         \<and> length h < length h3"
  proof (cases r)
    case (Inr u)
    with assms show ?thesis by (auto dest: recover_return)
  next
    case (Inl x)
    show ?thesis
    proof (cases "x = testSkipped \<or> x = testFailed")
      case True
      with Inl assms show ?thesis by (auto dest: recover_marker)
    next
      case False
      with recover_other[of cb h c x h2 X] Inl assms show ?thesis by auto
    qed
  qed
  then obtain h3 where
    "defer_recover (cb ?t) (Run_deferred X ?t) () (h @ [root c]) = Some (Inr (), h3)"
    "length h < length h3" by blast
  from Run_after_callback[of cb h X c h3, OF this] show ?thesis by blast
qed

text \<open>
  C4, an instance: \<^verbatim>\<open>t.Error("boom"); t.Log("after")\<close> gives the error whose message
  holds both lines.
\<close>

theorem Run_result_witness:
  "bind (Error 0 [GoString ''boom'']) (\<lambda>_. Log 0 [GoString ''after'']) ([] @ [root ()])
      = Some (Inr (), [(root ())\<lparr>logs := ''boom\<newline>after\<newline>'', failed := True\<rparr>])
   \<and> length [] < length [(root ())\<lparr>logs := ''boom\<newline>after\<newline>'', failed := True\<rparr>]
   \<and> parent ([(root ())\<lparr>logs := ''boom\<newline>after\<newline>'', failed := True\<rparr>] ! length []) = None
   \<and> Run example_extern ()
        (\<lambda>t. bind (Error t [GoString ''boom'']) (\<lambda>_. Log t [GoString ''after''])) [] =
      Some (Inr (errorString ''test failed:\<newline>boom\<newline>after\<newline>''),
            [(root ())\<lparr>logs := ''boom\<newline>after\<newline>'', failed := True\<rparr>])"
  using Run_result[of "\<lambda>t. bind (Error t [GoString ''boom'']) (\<lambda>_. Log t [GoString ''after''])"
      "[]" "()" "Inr ()" "[(root ())\<lparr>logs := ''boom\<newline>after\<newline>'', failed := True\<rparr>]"
      example_extern]
  by (simp add: eval)

text \<open>
  C5. On a well-formed store, \<^verbatim>\<open>Fail\<close>, \<^verbatim>\<open>Error\<close> and \<^verbatim>\<open>Errorf\<close> on an allocated context
  return normally (the statement after the call runs next, in the store they leave),
  and in that store the context and every ancestor of it is failed.
\<close>

theorem markFailed_propagates:
  assumes "wf_heap h" and "e < length h"
  shows "(\<exists>h'. Fail e h = Some (Inr (), h') \<and> bind (Fail e) k h = k () h'
            \<and> (\<forall>a. ancestor_or_self h a e \<longrightarrow> failed (h' ! a)))
       \<and> (\<exists>h'. Error e args h = Some (Inr (), h') \<and> bind (Error e args) k h = k () h'
            \<and> (\<forall>a. ancestor_or_self h a e \<longrightarrow> failed (h' ! a)))
       \<and> (\<exists>h'. Errorf X e format args h = Some (Inr (), h')
            \<and> bind (Errorf X e format args) k h = k () h'
            \<and> (\<forall>a. ancestor_or_self h a e \<longrightarrow> failed (h' ! a)))"
proof (intro conjI)
  have b: "\<And>a. ancestor_or_self h a e \<Longrightarrow> a < length h"
    using assms ancestor_le[of h _ e] by fastforce
  show "\<exists>h'. Fail e h = Some (Inr (), h') \<and> bind (Fail e) k h = k () h'
            \<and> (\<forall>a. ancestor_or_self h a e \<longrightarrow> failed (h' ! a))"
    using assms b by (auto simp: Fail_wf bind_def failed_marked)
  show "\<exists>h'. Error e args h = Some (Inr (), h') \<and> bind (Error e args) k h = k () h'
            \<and> (\<forall>a. ancestor_or_self h a e \<longrightarrow> failed (h' ! a))"
    using assms b by (auto simp: Error_wf bind_def failed_marked_logged)
  show "\<exists>h'. Errorf X e format args h = Some (Inr (), h')
            \<and> bind (Errorf X e format args) k h = k () h'
            \<and> (\<forall>a. ancestor_or_self h a e \<longrightarrow> failed (h' ! a))"
    using assms b by (auto simp: Errorf_wf bind_def failed_marked_logged)
qed

text \<open>C5, an instance: \<^verbatim>\<open>sub.Error("boom")\<close> in a subtest of the root marks both.\<close>

theorem markFailed_propagates_witness:
  "wf_heap [root (), child [root ()] 0 ''sub'']
   \<and> (1::nat) < length [root (), child [root ()] 0 ''sub'']
   \<and> ancestor_or_self [root (), child [root ()] 0 ''sub''] 0 1
   \<and> (\<exists>h'. Error 1 [GoString ''boom''] [root (), child [root ()] 0 ''sub''] = Some (Inr (), h')
          \<and> failed (h' ! 0) \<and> failed (h' ! 1))"
proof -
  let ?H = "[root (), child [root ()] 0 ''sub'']"
  have w: "wf_heap ?H" by (simp add: wf_heap_def root_def child_def)
  have l: "(1::nat) < length ?H" by simp
  have a1: "ancestor_or_self ?H 1 1" by (rule ancestor_or_self.self)
  have a0: "ancestor_or_self ?H 0 1"
    by (rule ancestor_or_self.up[of 1 _ 0]) (simp_all add: child_def ancestor_or_self.self)
  from markFailed_propagates[OF w l, where k = return and args = "[GoString ''boom'']"
      and X = example_extern and format = "''x''"] a0 a1 w l
  show ?thesis by blast
qed




text \<open>
  C7. A top-level callback that calls \<^verbatim>\<open>t.Fatal("boom")\<close> and then \<^verbatim>\<open>t.Log("after")\<close>,
  followed by anything else, makes \<^verbatim>\<open>Run\<close> return the error whose message is
  \<^verbatim>\<open>test failed:\<close>, newline, \<^verbatim>\<open>boom\<close>, newline: it contains \<^verbatim>\<open>boom\<close> and does not
  contain \<^verbatim>\<open>after\<close>.
\<close>

theorem Run_Fatal_truncates:
  "Run X c (\<lambda>t. bind (Fatal t [GoString ''boom''])
                  (\<lambda>_. bind (Log t [GoString ''after'']) (\<lambda>_. k t))) h =
     Some (Inr (errorString ''test failed:\<newline>boom\<newline>''),
           h @ [(root c)\<lparr>logs := ''boom\<newline>'', failed := True\<rparr>])
   \<and> Contains ''test failed:\<newline>boom\<newline>'' ''boom''
   \<and> \<not> Contains ''test failed:\<newline>boom\<newline>'' ''after''"
proof -
  let ?h1 = "h @ [root c]"
  let ?h2 = "h @ [(root c)\<lparr>logs := ''boom\<newline>'', failed := True\<rparr>]"
  let ?cb = "\<lambda>t. bind (Fatal t [GoString ''boom''])
                  (\<lambda>_. bind (Log t [GoString ''after'']) (\<lambda>_. k t))"
  have f: "Fatal (length h) [GoString ''boom''] ?h1 = Some (Inl testFailed, ?h2)"
    by (simp add: Fatal_def bind_def Log_valid FailNow_valid Sprintln_def root_def)
  have 1: "?cb (length h) ?h1 = Some (Inl testFailed, ?h2)"
    by (simp add: bind_def f)
  have 2: "length h < length ?h2" by simp
  have 3: "testFailed = testSkipped \<or> testFailed = testFailed" by simp
  from Run_after_callback[of ?cb h X c ?h2,
      OF recover_marker[of ?cb h c testFailed ?h2 X, OF 1 3] 2]
  show ?thesis by simp
qed




text \<open>
  C9. A top-level callback that does nothing but panic with one of the two markers
  makes \<^verbatim>\<open>Run\<close> return nil, the root being neither failed nor skipped. More generally,
  when the callback ends with a marker and the root is not failed at that point, \<^verbatim>\<open>Run\<close>
  returns nil and leaves the store as the callback left it: absorbing a marker sets no
  flag.
\<close>

theorem Run_marker_absorbed:
  assumes "m = testSkipped \<or> m = testFailed"
  shows "Run X c (\<lambda>t. panic m) h = Some (Inr nil, h @ [root c])
       \<and> (cb (length h) (h @ [root c]) = Some (Inl m, h2) \<and> length h < length h2
            \<and> \<not> failed (h2 ! length h) \<longrightarrow>
          Run X c cb h = Some (Inr nil, h2))"
proof (intro conjI impI)
  let ?cb = "\<lambda>t. panic m :: ('a, unit) M"
  have 1: "?cb (length h) (h @ [root c]) = Some (Inl m, h @ [root c])"
    by (simp add: panic_def)
  have 2: "length h < length (h @ [root c])" by simp
  from Run_after_callback[of ?cb h X c "h @ [root c]",
      OF recover_marker[of ?cb h c m "h @ [root c]" X, OF 1 assms] 2]
  show "Run X c ?cb h = Some (Inr nil, h @ [root c])"
    by (simp add: root_def)
next
  assume a: "cb (length h) (h @ [root c]) = Some (Inl m, h2) \<and> length h < length h2
            \<and> \<not> failed (h2 ! length h)"
  then have 1: "cb (length h) (h @ [root c]) = Some (Inl m, h2)"
    and 2: "length h < length h2" by auto
  from Run_after_callback[of cb h X c h2, OF recover_marker[of cb h c m h2 X, OF 1 assms] 2] a
  show "Run X c cb h = Some (Inr nil, h2)"
    by simp
qed

text \<open>
  C9, the two instances: \<^verbatim>\<open>panic(testSkipped{})\<close> and \<^verbatim>\<open>panic(testFailed{})\<close> as the
  whole callback, and the second after a line was logged.
\<close>

theorem Run_marker_absorbed_witness:
  "(testSkipped = testSkipped \<or> testSkipped = testFailed)
   \<and> (testFailed = testSkipped \<or> testFailed = testFailed)
   \<and> Run example_extern () (\<lambda>t. panic testSkipped) [] = Some (Inr nil, [root ()])
   \<and> Run example_extern () (\<lambda>t. panic testFailed) [] = Some (Inr nil, [root ()])
   \<and> bind (Log 0 [GoString ''before'']) (\<lambda>_. panic testFailed) ([] @ [root ()])
        = Some (Inl testFailed, [(root ())\<lparr>logs := ''before\<newline>''\<rparr>])
   \<and> Run example_extern () (\<lambda>t. bind (Log t [GoString ''before'']) (\<lambda>_. panic testFailed)) []
        = Some (Inr nil, [(root ())\<lparr>logs := ''before\<newline>''\<rparr>])"
  using Run_marker_absorbed[where m = testSkipped and X = example_extern and c = "()" and h = "[]"
      and cb = "\<lambda>t. panic testSkipped" and ?h2.0 = "[root ()]"]
    Run_marker_absorbed[where m = testFailed and X = example_extern and c = "()" and h = "[]"
      and cb = "\<lambda>t. bind (Log t [GoString ''before'']) (\<lambda>_. panic testFailed)"
      and ?h2.0 = "[(root ())\<lparr>logs := ''before\<newline>''\<rparr>]"]
  by (simp add: bind_def panic_def Log_def assign_def Sprintln_def root_def)

text \<open>
  C10. Take the stores that test code observes while it runs, from whatever store it
  starts in: the initial store, the store after each statement at every depth, the
  store a subtest's callback starts in, and the store \<^verbatim>\<open>T.Run\<close> leaves. For any two
  of them, in the order they occur, every object of the earlier one is in the later one,
  and each of its two flags that was set is still set. The same holds between every
  observed store and the store the test code ends in, and, when the test code is the
  callback of the entry point, the store \<^verbatim>\<open>Run\<close> leaves. From a well-formed store the
  test code does end.
\<close>

theorem flags_monotonic:
  "(\<forall>i j. i < j \<and> j < length (h # obs_list X env p h) \<longrightarrow>
       flags_kept ((h # obs_list X env p h) ! i) ((h # obs_list X env p h) ! j))
   \<and> (exec_list X env p h = Some (r, h') \<longrightarrow>
        (\<forall>s\<in>set (h # obs_list X env p h). flags_kept s h'))
   \<and> (Run X c (\<lambda>t. exec_list X (t # env) p) h = Some (r0, h0) \<longrightarrow>
        (\<forall>s\<in>set ((h @ [root c]) # obs_list X (length h # env) p (h @ [root c])).
           flags_kept s h0))
   \<and> (wf_heap h \<longrightarrow> (\<exists>r h'. exec_list X env p h = Some (r, h')))"
proof (intro conjI allI impI)
  fix i j
  assume "i < j \<and> j < length (h # obs_list X env p h)"
  with obs_list_chain(1)[of h X env p]
  have "extends ((h # obs_list X env p h) ! i) ((h # obs_list X env p h) ! j)"
    by (simp only: sorted_wrt_iff_nth_less)
  then show "flags_kept ((h # obs_list X env p h) ! i) ((h # obs_list X env p h) ! j)"
    by (rule flags_kept_extends)
next
  assume "exec_list X env p h = Some (r, h')"
  from obs_list_chain(2)[OF this]
  show "\<forall>s\<in>set (h # obs_list X env p h). flags_kept s h'"
    by (blast intro: flags_kept_extends)
next
  assume "Run X c (\<lambda>t. exec_list X (t # env) p) h = Some (r0, h0)"
  from Run_after_body[OF this] obtain r1 h2 where
    1: "exec_list X (length h # env) p (h @ [root c]) = Some (r1, h2)" and 2: "extends h2 h0"
    by blast
  from obs_list_chain(2)[OF 1] 2
  show "\<forall>s\<in>set ((h @ [root c]) # obs_list X (length h # env) p (h @ [root c])).
           flags_kept s h0"
    by (blast intro: flags_kept_extends extends_trans)
next
  assume "wf_heap h"
  from exec_list_returns[OF this] show "\<exists>r h'. exec_list X env p h = Some (r, h')"
    by blast
qed

text \<open>
  C10, an instance: the root runs a subtest that calls \<^verbatim>\<open>sub.Fatal("boom")\<close> and goes
  on. The child is failed in the store its callback ends in, and stays failed in the
  store \<^verbatim>\<open>T.Run\<close> leaves and in the last store.
\<close>

theorem flags_monotonic_witness:
  "obs_list example_extern [0]
      [RunC (Var 0) ''sub'' [FatalC (Var 0) [GoString ''boom'']] []
         [LogC (Var 0) [GoString ''sub failed'']]]
      [root ()]
    = [[root (), child [root ()] 0 ''sub''],
       [root (), (child [root ()] 0 ''sub'')\<lparr>logs := ''boom\<newline>'', failed := True\<rparr>],
       [root (), (child [root ()] 0 ''sub'')\<lparr>logs := ''boom\<newline>'', failed := True\<rparr>],
       [(root ())\<lparr>logs := ''sub failed\<newline>''\<rparr>,
        (child [root ()] 0 ''sub'')\<lparr>logs := ''boom\<newline>'', failed := True\<rparr>]]
   \<and> wf_heap [root ()]
   \<and> flags_kept [root (), (child [root ()] 0 ''sub'')\<lparr>logs := ''boom\<newline>'', failed := True\<rparr>]
        [(root ())\<lparr>logs := ''sub failed\<newline>''\<rparr>,
         (child [root ()] 0 ''sub'')\<lparr>logs := ''boom\<newline>'', failed := True\<rparr>]
   \<and> failed ([(root ())\<lparr>logs := ''sub failed\<newline>''\<rparr>,
         (child [root ()] 0 ''sub'')\<lparr>logs := ''boom\<newline>'', failed := True\<rparr>] ! 1)"
proof -
  let ?p = "[RunC (Var 0) ''sub'' [FatalC (Var 0) [GoString ''boom'']] []
               [LogC (Var 0) [GoString ''sub failed'']]]"
  let ?h2 = "[root (), (child [root ()] 0 ''sub'')\<lparr>logs := ''boom\<newline>'', failed := True\<rparr>]"
  let ?h3 = "[(root ())\<lparr>logs := ''sub failed\<newline>''\<rparr>,
             (child [root ()] 0 ''sub'')\<lparr>logs := ''boom\<newline>'', failed := True\<rparr>]"
  have o: "obs_list example_extern [0] ?p [root ()]
             = [[root (), child [root ()] 0 ''sub''], ?h2, ?h2, ?h3]"
    by (simp add: eval after_def)
  have w: "wf_heap [root ()]" by (simp add: wf_heap_def root_def)
  from flags_monotonic[of "[root ()]" example_extern "[0]" ?p]
  have "\<forall>i j. i < j \<and> j < length ([root ()] # obs_list example_extern [0] ?p [root ()]) \<longrightarrow>
       flags_kept (([root ()] # obs_list example_extern [0] ?p [root ()]) ! i)
                  (([root ()] # obs_list example_extern [0] ?p [root ()]) ! j)"
    by blast
  then have "(2::nat) < 4 \<and> 4 < length ([root ()] # obs_list example_extern [0] ?p [root ()]) \<longrightarrow>
       flags_kept (([root ()] # obs_list example_extern [0] ?p [root ()]) ! 2)
                  (([root ()] # obs_list example_extern [0] ?p [root ()]) ! 4)"
    by blast
  then have "flags_kept ?h2 ?h3"
    unfolding o by simp
  with o w show ?thesis by (simp add: child_def)
qed

end
